theory Spec2Isabelle
  imports Complex_Main "HOL-Library.Char_ord" "HOL-Library.List_Lexorder" "HOL-Library.Multiset"
begin

section \<open>Data model (models/photo.py, models/face.py, models/person.py)\<close>

text \<open>
  The relational store is three tables, each a list of rows in the order in which an
  unordered query enumerates them. Primary keys are natural numbers; a nullable column
  is an \<open>option\<close>. Floating-point columns and embedding vectors are modelled over
  the reals, and timestamps as a number of microseconds (the ISO-8601 text the code
  sorts by is ordered like the instant it denotes). The embedding column holds the vector
  itself rather than its JSON text; null and the empty text are both \<open>None\<close>.
\<close>

datatype error = ValueError | TypeError

record photo =
  ph_id :: nat
  ph_user_id :: nat
  ph_filename :: string
  ph_original_filename :: string
  ph_filepath :: string
  ph_mime_type :: "string option"
  ph_file_size :: "nat option"
  ph_is_favorite :: bool
  ph_uploaded_at :: "nat option"
  ph_file_hash :: "string option"

record face =
  fa_id :: nat
  fa_photo_id :: nat
  fa_person_id :: "nat option"
  fa_x :: real
  fa_y :: real
  fa_width :: real
  fa_height :: real
  fa_confidence :: "real option"
  fa_embedding :: "real list option"
  fa_embedding_model :: "string option"

record person =
  pe_id :: nat
  pe_user_id :: nat
  pe_name :: string
  pe_avatar_path :: "string option"
  pe_created_at :: "nat option"

record store =
  photos :: "photo list"
  faces :: "face list"
  persons :: "person list"

subsection \<open>Queries and relationships\<close>

text \<open>\<open>Model.query.get(id)\<close>: the row with that primary key, if any.\<close>

definition photo_get :: "store \<Rightarrow> nat \<Rightarrow> photo option" where
  "photo_get s i = find (\<lambda>p. ph_id p = i) (photos s)"

definition face_get :: "store \<Rightarrow> nat \<Rightarrow> face option" where
  "face_get s i = find (\<lambda>f. fa_id f = i) (faces s)"

definition person_get :: "store \<Rightarrow> nat \<Rightarrow> person option" where
  "person_get s i = find (\<lambda>p. pe_id p = i) (persons s)"

text \<open>\<open>face.person\<close>: the backref of \<open>Person.faces\<close>, a lookup by the foreign key.\<close>

definition face_person :: "store \<Rightarrow> face \<Rightarrow> person option" where
  "face_person s f = (case fa_person_id f of None \<Rightarrow> None | Some i \<Rightarrow> person_get s i)"

text \<open>\<open>person.faces\<close> and \<open>photo.faces\<close>: dynamic relationships, queries by foreign key.\<close>

definition person_faces :: "store \<Rightarrow> nat \<Rightarrow> face list" where
  "person_faces s pid = filter (\<lambda>f. fa_person_id f = Some pid) (faces s)"

definition photo_faces :: "store \<Rightarrow> nat \<Rightarrow> face list" where
  "photo_faces s phid = filter (\<lambda>f. fa_photo_id f = phid) (faces s)"

text \<open>A fresh primary key: one more than the largest key of the table.\<close>

definition next_id :: "nat list \<Rightarrow> nat" where
  "next_id ids = Suc (fold max ids 0)"

text \<open>Python's truth value of an optional integer: \<open>None\<close> and \<open>0\<close> are false.\<close>

definition truthy_id :: "nat option \<Rightarrow> bool" where
  "truthy_id v = (case v of None \<Rightarrow> False | Some i \<Rightarrow> i \<noteq> 0)"

text \<open>\<open>str.strip()\<close>, on strings of code points below 256.\<close>

definition py_isspace :: "char \<Rightarrow> bool" where
  "py_isspace c = (of_char c \<in> {9, 10, 11, 12, 13, 28, 29, 30, 31, 32, 133, 160 :: nat})"

definition strip :: "string \<Rightarrow> string" where
  "strip x = rev (dropWhile py_isspace (rev (dropWhile py_isspace x)))"

section \<open>Vector similarity and the identity matcher (services/face_service.py)\<close>

definition linalg_norm :: "real list \<Rightarrow> real" where
  "linalg_norm v = sqrt (sum_list (map (\<lambda>x. x * x) v))"

text \<open>\<open>np.dot\<close> on two one-dimensional arrays raises \<open>ValueError\<close> when their lengths differ.\<close>

definition np_dot :: "real list \<Rightarrow> real list \<Rightarrow> error + real" where
  "np_dot a b =
     (if length a \<noteq> length b then Inl ValueError
      else Inr (sum_list (map (\<lambda>(x, y). x * y) (zip a b))))"

definition compute_similarity :: "real list \<Rightarrow> real list \<Rightarrow> error + real" where
  "compute_similarity vec_a vec_b =
     (let norm_a = linalg_norm vec_a; norm_b = linalg_norm vec_b in
      if norm_a = 0 \<or> norm_b = 0 then Inr 0
      else (case np_dot vec_a vec_b of
              Inl e \<Rightarrow> Inl e
            | Inr d \<Rightarrow> Inr (d / (norm_a * norm_b))))"

text \<open>
  \<open>get_all_embeddings_for_user\<close>: the faces joined with their photo, with a stored
  embedding, whose photo belongs to the user; each paired with its embedding.
\<close>

definition get_all_embeddings_for_user :: "store \<Rightarrow> nat \<Rightarrow> (face \<times> real list) list" where
  "get_all_embeddings_for_user s user_id =
     List.map_filter
       (\<lambda>f. case fa_embedding f of None \<Rightarrow> None | Some emb \<Rightarrow> Some (f, emb))
       (filter (\<lambda>f. fa_embedding f \<noteq> None \<and>
                     (\<exists>p \<in> set (photos s). ph_id p = fa_photo_id f \<and> ph_user_id p = user_id))
          (faces s))"

text \<open>One iteration of the scan of \<open>find_matching_person\<close>, on the pair (best similarity, best person).\<close>

fun match_step ::
  "store \<Rightarrow> real list \<Rightarrow> real \<Rightarrow> real \<times> person option \<Rightarrow> face \<times> real list
     \<Rightarrow> error + (real \<times> person option)" where
  "match_step s embedding threshold (best_similarity, best_person) (fc, stored_emb) =
     (if fa_person_id fc = None then Inr (best_similarity, best_person)
      else (case compute_similarity embedding stored_emb of
              Inl e \<Rightarrow> Inl e
            | Inr sim \<Rightarrow>
                if sim \<ge> threshold \<and> sim > best_similarity
                then Inr (sim, face_person s fc)
                else Inr (best_similarity, best_person)))"

fun match_loop ::
  "store \<Rightarrow> real list \<Rightarrow> real \<Rightarrow> real \<times> person option \<Rightarrow> (face \<times> real list) list
     \<Rightarrow> error + (real \<times> person option)" where
  "match_loop s embedding threshold best [] = Inr best"
| "match_loop s embedding threshold best (c # cs) =
     (case match_step s embedding threshold best c of
        Inl e \<Rightarrow> Inl e
      | Inr best' \<Rightarrow> match_loop s embedding threshold best' cs)"

definition find_matching_person :: "store \<Rightarrow> real list \<Rightarrow> nat \<Rightarrow> real \<Rightarrow> error + person option" where
  "find_matching_person s embedding user_id threshold =
     (case match_loop s embedding threshold (- 1, None) (get_all_embeddings_for_user s user_id) of
        Inl e \<Rightarrow> Inl e
      | Inr (best_similarity, best_person) \<Rightarrow> Inr best_person)"

text \<open>
  The candidates of a match query: the user's faces with a stored embedding and a person
  link, in enumeration order, and the similarity of the query to each.
\<close>

definition candidates :: "store \<Rightarrow> nat \<Rightarrow> (face \<times> real list) list" where
  "candidates s user_id =
     filter (\<lambda>(fc, emb). fa_person_id fc \<noteq> None) (get_all_embeddings_for_user s user_id)"

definition similarities :: "store \<Rightarrow> real list \<Rightarrow> nat \<Rightarrow> (error + real) list" where
  "similarities s embedding user_id =
     map (\<lambda>(fc, emb). compute_similarity embedding emb) (candidates s user_id)"

section \<open>Person registry (services/person_service.py, services/face_service.py)\<close>

text \<open>
  \<open>Person.to_dict\<close>. The avatar URL, built from the process environment, is not modelled.
  The listing is ordered by name; the database's collation is modelled by the
  lexicographic order on code points.
\<close>

record person_dict =
  pd_id :: nat
  pd_name :: string
  pd_photoCount :: nat
  pd_created_at :: "nat option"

definition person_to_dict :: "store \<Rightarrow> person \<Rightarrow> person_dict" where
  "person_to_dict s p =
     \<lparr>pd_id = pe_id p, pd_name = pe_name p,
      pd_photoCount = length (person_faces s (pe_id p)), pd_created_at = pe_created_at p\<rparr>"

definition get_persons :: "store \<Rightarrow> nat \<Rightarrow> person_dict list" where
  "get_persons s user_id =
     (let ps = sort_key pe_name (filter (\<lambda>p. pe_user_id p = user_id) (persons s)) in
      map (person_to_dict s) (filter (\<lambda>p. length (person_faces s (pe_id p)) > 0) ps))"

text \<open>A new \<open>Person(user_id, name)\<close> row, inserted at time \<open>now\<close>.\<close>

definition new_person :: "store \<Rightarrow> nat \<Rightarrow> nat \<Rightarrow> string \<Rightarrow> person" where
  "new_person s now user_id name =
     \<lparr>pe_id = next_id (map pe_id (persons s)), pe_user_id = user_id, pe_name = name,
      pe_avatar_path = None, pe_created_at = Some now\<rparr>"

definition create_person :: "store \<Rightarrow> nat \<Rightarrow> nat \<Rightarrow> string \<Rightarrow> store \<times> person_dict" where
  "create_person s now user_id name =
     (case find (\<lambda>p. pe_user_id p = user_id \<and> pe_name p = name) (persons s) of
        Some existing \<Rightarrow> (s, person_to_dict s existing)
      | None \<Rightarrow>
          (let person = new_person s now user_id name;
               s' = s\<lparr>persons := persons s @ [person]\<rparr>
           in (s', person_to_dict s' person)))"

definition delete_person :: "store \<Rightarrow> nat \<Rightarrow> nat \<Rightarrow> store \<times> bool" where
  "delete_person s person_id user_id =
     (case find (\<lambda>p. pe_id p = person_id \<and> pe_user_id p = user_id) (persons s) of
        None \<Rightarrow> (s, False)
      | Some person \<Rightarrow>
          (s\<lparr>faces := map (\<lambda>f. if fa_person_id f = Some person_id
                                 then f\<lparr>fa_person_id := None\<rparr> else f) (faces s),
             persons := filter (\<lambda>p. pe_id p \<noteq> pe_id person) (persons s)\<rparr>,
           True))"

text \<open>\<open>face.person_id = v\<close> followed by a commit: an update of the row with that key.\<close>

definition set_face_person :: "store \<Rightarrow> nat \<Rightarrow> nat option \<Rightarrow> store" where
  "set_face_person s face_id v =
     s\<lparr>faces := map (\<lambda>f. if fa_id f = face_id then f\<lparr>fa_person_id := v\<rparr> else f) (faces s)\<rparr>"

definition assign_face_to_person ::
  "store \<Rightarrow> nat \<Rightarrow> nat \<Rightarrow> string \<Rightarrow> nat \<Rightarrow> store \<times> face option" where
  "assign_face_to_person s now face_id person_name user_id =
     (case face_get s face_id of
        None \<Rightarrow> (s, None)
      | Some fc \<Rightarrow>
          (let (s1, person) =
                 (case find (\<lambda>p. pe_name p = person_name \<and> pe_user_id p = user_id) (persons s) of
                    Some p \<Rightarrow> (s, p)
                  | None \<Rightarrow>
                      (let p = new_person s now user_id person_name
                       in (s\<lparr>persons := persons s @ [p]\<rparr>, p)))
           in (set_face_person s1 face_id (Some (pe_id person)),
               Some (fc\<lparr>fa_person_id := Some (pe_id person)\<rparr>))))"

text \<open>
  The route \<open>PUT /api/faces/<id>/assign\<close> (routes/faces.py), with the HTTP status it
  answers for the acting user. \<open>data_name\<close> is the value under the key \<open>name\<close> of the
  request body, if it has one.
\<close>

definition assign_name :: "store \<Rightarrow> nat \<Rightarrow> nat \<Rightarrow> string option \<Rightarrow> nat \<Rightarrow> store \<times> nat" where
  "assign_name s now face_id data_name user_id =
     (let raw = (case data_name of None \<Rightarrow> [] | Some n \<Rightarrow> n) in
      if strip raw = [] then (s, 400)
      else (case assign_face_to_person s now face_id (strip raw) user_id of
              (s', None) \<Rightarrow> (s', 404)
            | (s', Some fc) \<Rightarrow> (s', 200)))"

section \<open>Photo deletion and orphan cleanup (services/photo_service.py)\<close>

definition get_photo_by_id :: "store \<Rightarrow> nat \<Rightarrow> nat \<Rightarrow> photo option" where
  "get_photo_by_id s photo_id user_id =
     find (\<lambda>p. ph_id p = photo_id \<and> ph_user_id p = user_id) (photos s)"

text \<open>The person ids of a photo's faces whose \<open>person_id\<close> is true in Python's sense.\<close>

definition linked_person_ids :: "store \<Rightarrow> photo \<Rightarrow> nat list" where
  "linked_person_ids s photo =
     List.map_filter (\<lambda>f. if truthy_id (fa_person_id f) then fa_person_id f else None)
       (photo_faces s (ph_id photo))"

text \<open>\<open>db.session.delete(photo)\<close>: the row goes, and by the cascade its faces with it.\<close>

definition delete_photo_row :: "store \<Rightarrow> photo \<Rightarrow> store" where
  "delete_photo_row s photo =
     s\<lparr>photos := filter (\<lambda>p. ph_id p \<noteq> ph_id photo) (photos s),
       faces := filter (\<lambda>f. fa_photo_id f \<noteq> ph_id photo) (faces s)\<rparr>"

text \<open>One iteration of the cleanup loop: delete the person if it has no face left.\<close>

definition cleanup_orphan :: "nat \<Rightarrow> store \<Rightarrow> store" where
  "cleanup_orphan pid s =
     (case person_get s pid of
        None \<Rightarrow> s
      | Some person \<Rightarrow>
          if length (person_faces s (pe_id person)) = 0
          then s\<lparr>persons := filter (\<lambda>p. pe_id p \<noteq> pe_id person) (persons s)\<rparr>
          else s)"

definition cleanup_orphans :: "nat list \<Rightarrow> store \<Rightarrow> store" where
  "cleanup_orphans person_ids s = (if person_ids \<noteq> [] then fold cleanup_orphan person_ids s else s)"

text \<open>The set \<open>person_ids\<close> is a list without duplicates.\<close>

definition delete_photo :: "store \<Rightarrow> nat \<Rightarrow> nat \<Rightarrow> store \<times> bool" where
  "delete_photo s photo_id user_id =
     (case get_photo_by_id s photo_id user_id of
        None \<Rightarrow> (s, False)
      | Some photo \<Rightarrow>
          (let person_ids = remdups (linked_person_ids s photo);
               s1 = delete_photo_row s photo
           in (cleanup_orphans person_ids s1, True)))"

fun batch_loop :: "photo list \<Rightarrow> nat list \<Rightarrow> nat \<Rightarrow> store \<Rightarrow> nat list \<times> nat \<times> store" where
  "batch_loop [] person_ids deleted_count s = (person_ids, deleted_count, s)"
| "batch_loop (photo # rest) person_ids deleted_count s =
     batch_loop rest (fold List.insert (linked_person_ids s photo) person_ids)
       (deleted_count + 1) (delete_photo_row s photo)"

definition delete_photos_batch :: "store \<Rightarrow> nat list \<Rightarrow> nat \<Rightarrow> store \<times> nat" where
  "delete_photos_batch s photo_ids user_id =
     (let phs = filter (\<lambda>p. ph_id p \<in> set photo_ids \<and> ph_user_id p = user_id) (photos s) in
      if phs = [] then (s, 0)
      else (case batch_loop phs [] 0 s of
              (person_ids, deleted_count, s1) \<Rightarrow> (cleanup_orphans person_ids s1, deleted_count)))"

text \<open>No person without a referencing face.\<close>

definition no_orphans :: "store \<Rightarrow> bool" where
  "no_orphans s = (\<forall>p \<in> set (persons s). \<exists>f \<in> set (faces s). fa_person_id f = Some (pe_id p))"

text \<open>
  Every person has a referencing face whose key is outside \<open>F\<close>; with the empty set this
  is \<open>no_orphans\<close>.
\<close>

definition anchored :: "store \<Rightarrow> nat set \<Rightarrow> bool" where
  "anchored s F =
     (\<forall>p \<in> set (persons s). \<exists>f \<in> set (faces s). fa_id f \<notin> F \<and> fa_person_id f = Some (pe_id p))"

section \<open>Duplicate detection (services/photo_service.py, services/chat_actions.py)\<close>

text \<open>
  \<open>Photo.to_dict\<close>. The URL, built from the request, and the categories and tags, which
  live in tables that are not modelled, are left out.
\<close>

record photo_dict =
  phd_id :: nat
  phd_title :: string
  phd_filename :: string
  phd_original_filename :: string
  phd_mime_type :: "string option"
  phd_file_size :: "nat option"
  phd_is_favorite :: bool
  phd_uploaded_at :: "nat option"
  phd_faces_count :: nat

definition photo_to_dict :: "store \<Rightarrow> photo \<Rightarrow> photo_dict" where
  "photo_to_dict s p =
     \<lparr>phd_id = ph_id p, phd_title = ph_original_filename p, phd_filename = ph_filename p,
      phd_original_filename = ph_original_filename p, phd_mime_type = ph_mime_type p,
      phd_file_size = ph_file_size p, phd_is_favorite = ph_is_favorite p,
      phd_uploaded_at = ph_uploaded_at p,
      phd_faces_count = length (photo_faces s (ph_id p))\<rparr>"

text \<open>
  The grouping query: the non-null hashes of the user's photos that occur more than once,
  each once.
\<close>

definition duplicate_hashes :: "store \<Rightarrow> nat \<Rightarrow> string list" where
  "duplicate_hashes s user_id =
     (let hs = List.map_filter ph_file_hash
                 (filter (\<lambda>p. ph_user_id p = user_id \<and> ph_file_hash p \<noteq> None) (photos s))
      in filter (\<lambda>h. count_list hs h > 1) (remdups hs))"

text \<open>The result dictionary, as the list of its items in insertion order.\<close>

definition get_all_duplicates :: "store \<Rightarrow> nat \<Rightarrow> (string \<times> photo_dict list) list" where
  "get_all_duplicates s user_id =
     map (\<lambda>fhash.
            (fhash, map (photo_to_dict s)
                      (filter (\<lambda>p. ph_user_id p = user_id \<and> ph_file_hash p = Some fhash) (photos s))))
       (duplicate_hashes s user_id)"

text \<open>
  \<open>sorted(group_photos, key=lambda p: p.get("uploaded_at", ""))\<close>: a stable sort. The key
  is present in every dictionary; where it is \<open>None\<close> a comparison raises \<open>TypeError\<close>,
  and a list of two or more elements is never sorted without comparing each of them.
\<close>

definition uploaded_key :: "photo_dict \<Rightarrow> nat" where
  "uploaded_key p = (case phd_uploaded_at p of None \<Rightarrow> 0 | Some t \<Rightarrow> t)"

definition sorted_by_uploaded_at :: "photo_dict list \<Rightarrow> error + photo_dict list" where
  "sorted_by_uploaded_at ps =
     (if length ps \<ge> 2 \<and> (\<exists>p \<in> set ps. phd_uploaded_at p = None) then Inl TypeError
      else Inr (sort_key uploaded_key ps))"

fun stage_groups :: "(string \<times> photo_dict list) list \<Rightarrow> nat list \<Rightarrow> error + nat list" where
  "stage_groups [] to_delete = Inr to_delete"
| "stage_groups ((group_hash, group_photos) # rest) to_delete =
     (case sorted_by_uploaded_at group_photos of
        Inl e \<Rightarrow> Inl e
      | Inr sorted_photos \<Rightarrow> stage_groups rest (to_delete @ map phd_id (tl sorted_photos)))"

text \<open>
  The answer of an action handler: an information message, or a deletion staged for the
  caller's confirmation with the photo ids, their count and, for the description, the
  number of groups.
\<close>

datatype action_result =
  Info string
  | Delete_confirmation (dc_photo_ids: "nat list") (dc_count: nat) (dc_groups: nat)

text \<open>The handler reads the store and returns it as it found it.\<close>

definition action_delete_duplicates :: "store \<Rightarrow> nat \<Rightarrow> store \<times> (error + action_result)" where
  "action_delete_duplicates s user_id =
     (let groups = get_all_duplicates s user_id in
      if groups = [] then (s, Inr (Info ''No duplicate photos to delete.''))
      else (case stage_groups groups [] of
              Inl e \<Rightarrow> (s, Inl e)
            | Inr to_delete \<Rightarrow>
                (s, Inr (Delete_confirmation to_delete (length to_delete) (length groups)))))"

section \<open>Photo upload (routes/photos.py, services/photo_service.py, services/face_service.py)\<close>

text \<open>
  What \<open>save_uploaded_file\<close> returns, and \<open>create_photo\<close>. The content hash of the file
  and the clock are inputs; categories and tags are not modelled.
\<close>

record file_info =
  fi_filename :: string
  fi_original_filename :: string
  fi_filepath :: string
  fi_mime_type :: string
  fi_file_size :: nat

definition create_photo :: "store \<Rightarrow> nat \<Rightarrow> nat \<Rightarrow> file_info \<Rightarrow> string \<Rightarrow> store \<times> photo" where
  "create_photo s now user_id fi file_hash =
     (let photo =
            \<lparr>ph_id = next_id (map ph_id (photos s)), ph_user_id = user_id,
             ph_filename = fi_filename fi, ph_original_filename = fi_original_filename fi,
             ph_filepath = fi_filepath fi, ph_mime_type = Some (fi_mime_type fi),
             ph_file_size = Some (fi_file_size fi), ph_is_favorite = False,
             ph_uploaded_at = Some now, ph_file_hash = Some file_hash\<rparr>
      in (s\<lparr>photos := photos s @ [photo]\<rparr>, photo))"

text \<open>A bounding box of the detector, in relative coordinates, with its confidence.\<close>

record detection =
  det_x :: real
  det_y :: real
  det_width :: real
  det_height :: real
  det_confidence :: "real option"

definition new_face :: "store \<Rightarrow> nat \<Rightarrow> detection \<Rightarrow> face" where
  "new_face s photo_id fd =
     \<lparr>fa_id = next_id (map fa_id (faces s)), fa_photo_id = photo_id, fa_person_id = None,
      fa_x = det_x fd, fa_y = det_y fd, fa_width = det_width fd, fa_height = det_height fd,
      fa_confidence = det_confidence fd, fa_embedding = None, fa_embedding_model = None\<rparr>"

fun save_faces_loop :: "nat \<Rightarrow> detection list \<Rightarrow> store \<Rightarrow> face list \<Rightarrow> store \<times> face list" where
  "save_faces_loop photo_id [] s saved = (s, saved)"
| "save_faces_loop photo_id (fd # rest) s saved =
     (let fc = new_face s photo_id fd
      in save_faces_loop photo_id rest (s\<lparr>faces := faces s @ [fc]\<rparr>) (saved @ [fc]))"

definition save_detected_faces :: "store \<Rightarrow> nat \<Rightarrow> detection list \<Rightarrow> store \<times> face list" where
  "save_detected_faces s photo_id face_data = save_faces_loop photo_id face_data s []"

definition store_embedding :: "store \<Rightarrow> nat \<Rightarrow> real list \<Rightarrow> string \<Rightarrow> store" where
  "store_embedding s face_id embedding model_name =
     s\<lparr>faces := map (\<lambda>f. if fa_id f = face_id
                            then f\<lparr>fa_embedding := Some embedding,
                                   fa_embedding_model := Some model_name\<rparr>
                            else f) (faces s)\<rparr>"

text \<open>
  \<open>extract_embedding\<close> for the uploaded image and the model in use, as a function of the
  bounding box: an external collaborator that answers with a vector or with nothing.
\<close>

type_synonym extractor = "real \<times> real \<times> real \<times> real \<Rightarrow> real list option"

text \<open>
  The loop of \<open>process_embeddings_for_photo\<close> over the faces of the photo, by primary key;
  each face is read in the state the loop has reached. The threshold is the default of
  \<open>find_matching_person\<close>.
\<close>

fun embeddings_loop ::
  "extractor \<Rightarrow> nat \<Rightarrow> string \<Rightarrow> nat list \<Rightarrow> store \<Rightarrow> nat \<Rightarrow> store \<times> (error + nat)" where
  "embeddings_loop extract user_id model_name [] s auto_matched = (s, Inr auto_matched)"
| "embeddings_loop extract user_id model_name (fid # rest) s auto_matched =
     (case face_get s fid of
        None \<Rightarrow> embeddings_loop extract user_id model_name rest s auto_matched
      | Some fc \<Rightarrow>
          (case extract (fa_x fc, fa_y fc, fa_width fc, fa_height fc) of
             None \<Rightarrow> embeddings_loop extract user_id model_name rest s auto_matched
           | Some embedding \<Rightarrow>
               (let s1 = store_embedding s fid embedding model_name in
                if fa_person_id fc = None then
                  (case find_matching_person s1 embedding user_id (6 / 10) of
                     Inl e \<Rightarrow> (s1, Inl e)
                   | Inr None \<Rightarrow> embeddings_loop extract user_id model_name rest s1 auto_matched
                   | Inr (Some matched_person) \<Rightarrow>
                       embeddings_loop extract user_id model_name rest
                         (set_face_person s1 fid (Some (pe_id matched_person))) (auto_matched + 1))
                else embeddings_loop extract user_id model_name rest s1 auto_matched)))"

definition process_embeddings_for_photo ::
  "store \<Rightarrow> nat \<Rightarrow> extractor \<Rightarrow> nat \<Rightarrow> string \<Rightarrow> store \<times> (error + nat)" where
  "process_embeddings_for_photo s photo_id extract user_id model_name =
     embeddings_loop extract user_id model_name (map fa_id (photo_faces s photo_id)) s 0"

text \<open>
  The manual assignment loop of \<open>upload_photo\<close>. An entry of \<open>face_names\<close> is the value
  under its key \<open>name\<close>, if it has one; positions beyond the end of \<open>face_names\<close> are
  skipped.
\<close>

fun assign_names :: "nat \<Rightarrow> nat \<Rightarrow> face list \<Rightarrow> string option list \<Rightarrow> store \<Rightarrow> store" where
  "assign_names now user_id [] face_names s = s"
| "assign_names now user_id (fc # rest) [] s = s"
| "assign_names now user_id (fc # rest) (entry # face_names) s =
     (let raw = (case entry of None \<Rightarrow> [] | Some n \<Rightarrow> n) in
      if strip raw \<noteq> []
      then assign_names now user_id rest face_names
             (fst (assign_face_to_person s now (fa_id fc) (strip raw) user_id))
      else assign_names now user_id rest face_names s)"

text \<open>
  \<open>upload_photo\<close>, from the creation of the photo row on. The detector's answer for the
  image is an input. An exception raised while matching is answered with an error status
  and leaves the store as the commits before it made it.
\<close>

definition upload_photo ::
  "store \<Rightarrow> nat \<Rightarrow> nat \<Rightarrow> file_info \<Rightarrow> string \<Rightarrow> detection list \<Rightarrow> extractor
     \<Rightarrow> string option list \<Rightarrow> store \<times> (error + photo \<times> nat \<times> nat)" where
  "upload_photo s now user_id fi file_hash detected_faces extract face_names =
     (case create_photo s now user_id fi file_hash of
        (s1, photo) \<Rightarrow>
          if detected_faces \<noteq> [] then
            (case save_detected_faces s1 (ph_id photo) detected_faces of
               (s2, saved_faces) \<Rightarrow>
                 (case process_embeddings_for_photo s2 (ph_id photo) extract user_id ''facenet'' of
                    (s3, Inl e) \<Rightarrow> (s3, Inl e)
                  | (s3, Inr auto_matched_count) \<Rightarrow>
                      (let s4 = (if face_names \<noteq> []
                                 then assign_names now user_id saved_faces face_names s3
                                 else s3)
                       in (s4, Inr (photo, length detected_faces, auto_matched_count)))))
          else (s1, Inr (photo, 0, 0)))"

text \<open>The faces that an upload saves, in detection order.\<close>

definition uploaded_faces ::
  "store \<Rightarrow> nat \<Rightarrow> nat \<Rightarrow> file_info \<Rightarrow> string \<Rightarrow> detection list \<Rightarrow> face list" where
  "uploaded_faces s now user_id fi file_hash detected_faces =
     (case create_photo s now user_id fi file_hash of
        (s1, photo) \<Rightarrow> snd (save_detected_faces s1 (ph_id photo) detected_faces))"

text \<open>
  The face with key \<open>face_id\<close> exists and is linked to the person that a lookup of
  \<open>name\<close> in the user's scope finds.
\<close>

definition linked_to_name :: "store \<Rightarrow> nat \<Rightarrow> string \<Rightarrow> nat \<Rightarrow> bool" where
  "linked_to_name s face_id name user_id =
     (case (face_get s face_id,
            find (\<lambda>p. pe_name p = name \<and> pe_user_id p = user_id) (persons s)) of
        (Some fc, Some p) \<Rightarrow> fa_person_id fc = Some (pe_id p)
      | _ \<Rightarrow> False)"

section \<open>Example stores\<close>

definition mk_photo :: "nat \<Rightarrow> nat \<Rightarrow> nat option \<Rightarrow> string option \<Rightarrow> photo" where
  "mk_photo i u t h =
     \<lparr>ph_id = i, ph_user_id = u, ph_filename = ''a.jpg'', ph_original_filename = ''a.jpg'',
      ph_filepath = ''/uploads/a.jpg'', ph_mime_type = Some ''image/jpeg'', ph_file_size = Some 1,
      ph_is_favorite = False, ph_uploaded_at = t, ph_file_hash = h\<rparr>"

definition mk_face :: "nat \<Rightarrow> nat \<Rightarrow> nat option \<Rightarrow> real list option \<Rightarrow> face" where
  "mk_face i ph p e =
     \<lparr>fa_id = i, fa_photo_id = ph, fa_person_id = p, fa_x = 0, fa_y = 0, fa_width = 1,
      fa_height = 1, fa_confidence = Some 1, fa_embedding = e,
      fa_embedding_model = (case e of None \<Rightarrow> None | Some v \<Rightarrow> Some ''facenet'')\<rparr>"

definition mk_person :: "nat \<Rightarrow> nat \<Rightarrow> string \<Rightarrow> person" where
  "mk_person i u n =
     \<lparr>pe_id = i, pe_user_id = u, pe_name = n, pe_avatar_path = None, pe_created_at = Some 0\<rparr>"

text \<open>One photo of user 1 with three faces: Bob's, then two identical ones of Ann and Bob.\<close>

definition ex_match :: store where
  "ex_match =
     \<lparr>photos = [mk_photo 1 1 (Some 10) (Some ''aa'')],
      faces = [mk_face 1 1 (Some 2) (Some [0, 1]), mk_face 2 1 (Some 1) (Some [1, 0]),
               mk_face 3 1 (Some 2) (Some [1, 0])],
      persons = [mk_person 1 1 ''Ann'', mk_person 2 1 ''Bob'']\<rparr>"

text \<open>Two linked faces whose embeddings both point away from the query \<open>[1, 0]\<close>.\<close>

definition ex_opposite :: store where
  "ex_opposite =
     \<lparr>photos = [mk_photo 1 1 (Some 10) (Some ''aa'')],
      faces = [mk_face 1 1 (Some 1) (Some [- 1, 0]), mk_face 2 1 (Some 2) (Some [- 1, 0])],
      persons = [mk_person 1 1 ''Ann'', mk_person 2 1 ''Bob'']\<rparr>"

text \<open>
  Two photos of user 1 and one of user 2. Ann has a face on each photo of user 1, Bob a
  face on the second; the face on user 2's photo is not linked.
\<close>

definition ex_album :: store where
  "ex_album =
     \<lparr>photos = [mk_photo 1 1 (Some 10) (Some ''aa''), mk_photo 2 1 (Some 20) (Some ''bb''),
                mk_photo 3 2 (Some 30) (Some ''cc'')],
      faces = [mk_face 1 1 (Some 1) None, mk_face 2 2 (Some 1) (Some [1, 0]),
               mk_face 3 2 (Some 2) None, mk_face 4 3 None None],
      persons = [mk_person 1 1 ''Ann'', mk_person 2 1 ''Bob'']\<rparr>"

text \<open>The same store with two more persons who have no face: Cy of user 1 and Dee of user 2.\<close>

definition ex_registry :: store where
  "ex_registry = ex_album\<lparr>persons := persons ex_album @ [mk_person 3 1 ''Cy'', mk_person 4 2 ''Dee'']\<rparr>"

text \<open>
  Six photos of user 1 with the hashes aa, bb, cc, aa, cc, cc, a photo of user 2 with the
  hash aa, and a photo of user 1 without a hash.
\<close>

definition ex_dups :: store where
  "ex_dups =
     \<lparr>photos = [mk_photo 1 1 (Some 10) (Some ''aa''), mk_photo 2 1 (Some 20) (Some ''bb''),
                mk_photo 3 1 (Some 30) (Some ''cc''), mk_photo 4 1 (Some 5) (Some ''aa''),
                mk_photo 5 1 (Some 50) (Some ''cc''), mk_photo 6 1 (Some 25) (Some ''cc''),
                mk_photo 7 2 (Some 60) (Some ''aa''), mk_photo 8 1 (Some 70) None],
      faces = [], persons = []\<rparr>"

text \<open>Two photos with the same hash, the first row carrying the later upload time.\<close>

definition ex_unordered :: store where
  "ex_unordered =
     \<lparr>photos = [mk_photo 1 1 (Some 20) (Some ''aa''), mk_photo 2 1 (Some 10) (Some ''aa'')],
      faces = [], persons = []\<rparr>"

text \<open>An uploaded file, one detected box, and an extractor that always answers \<open>[1, 0]\<close>.\<close>

definition ex_file :: file_info where
  "ex_file = \<lparr>fi_filename = ''b.jpg'', fi_original_filename = ''b.jpg'',
              fi_filepath = ''/uploads/b.jpg'', fi_mime_type = ''image/jpeg'', fi_file_size = 2\<rparr>"

definition ex_box :: detection where
  "ex_box = \<lparr>det_x = 0, det_y = 0, det_width = 1, det_height = 1, det_confidence = Some 1\<rparr>"

definition ex_extract :: extractor where
  "ex_extract = (\<lambda>b. Some [1, 0])"

section \<open>Verified properties\<close>

subsection \<open>The scan of the identity matcher\<close>

lemma match_loop_skip_unlinked:
  "match_loop s q th best (filter (\<lambda>(fc, emb). fa_person_id fc \<noteq> None) cs) = match_loop s q th best cs"
proof (induction cs arbitrary: best)
  case Nil
  show ?case by simp
next
  case (Cons c cs)
  obtain bs bp where b: "best = (bs, bp)" by (cases best)
  obtain fc emb where c: "c = (fc, emb)" by (cases c)
  show ?case using Cons.IH by (simp add: b c split: sum.splits)
qed

lemma match_loop_defined:
  "match_loop s q th best cs = Inr r \<Longrightarrow> (fc, emb) \<in> set cs \<Longrightarrow> fa_person_id fc \<noteq> None
     \<Longrightarrow> \<exists>v. compute_similarity q emb = Inr v"
proof (induction cs arbitrary: best)
  case Nil
  then show ?case by simp
next
  case (Cons c cs)
  obtain bs bp where b: "best = (bs, bp)" by (cases best)
  obtain fc' emb' where c: "c = (fc', emb')" by (cases c)
  from Cons.prems(1) obtain best' where
    st: "match_step s q th best c = Inr best'" and lp: "match_loop s q th best' cs = Inr r"
    by (auto split: sum.splits)
  show ?case
  proof (cases "(fc, emb) = c")
    case True
    with st Cons.prems(3) show ?thesis
      by (auto simp: b c split: sum.splits if_splits)
  next
    case False
    with Cons.prems(2) have "(fc, emb) \<in> set cs" by auto
    from Cons.IH[OF lp this Cons.prems(3)] show ?thesis .
  qed
qed

lemma match_loop_source:
  "match_loop s q th best cs = Inr (b, r) \<Longrightarrow>
     r = snd best \<or>
     (\<exists>(fc, emb) \<in> set cs. fa_person_id fc \<noteq> None \<and>
         (\<exists>v. compute_similarity q emb = Inr v \<and> th \<le> v))"
proof (induction cs arbitrary: best)
  case Nil
  then show ?case by auto
next
  case (Cons c cs)
  obtain bs bp where b: "best = (bs, bp)" by (cases best)
  obtain fc emb where c: "c = (fc, emb)" by (cases c)
  from Cons.prems obtain best' where
    st: "match_step s q th best c = Inr best'" and lp: "match_loop s q th best' cs = Inr (b, r)"
    by (auto split: sum.splits)
  from Cons.IH[OF lp] consider "r = snd best'" | 
    "\<exists>(fc, emb) \<in> set cs. fa_person_id fc \<noteq> None \<and> (\<exists>v. compute_similarity q emb = Inr v \<and> th \<le> v)"
    by blast
  then show ?case
  proof cases
    case 1
    with st show ?thesis
      by (auto simp: b c split: sum.splits if_splits)
  next
    case 2
    then show ?thesis by auto
  qed
qed

lemma match_loop_below:
  "(\<And>fc emb. (fc, emb) \<in> set cs \<Longrightarrow> fa_person_id fc \<noteq> None \<Longrightarrow>
        \<exists>v. compute_similarity q emb = Inr v \<and> v < th)
   \<Longrightarrow> match_loop s q th best cs = Inr best"
proof (induction cs)
  case Nil
  show ?case by simp
next
  case (Cons c cs)
  obtain bs bp where b: "best = (bs, bp)" by (cases best)
  obtain fc emb where c: "c = (fc, emb)" by (cases c)
  have st: "match_step s q th best c = Inr best"
  proof (cases "fa_person_id fc = None")
    case True
    then show ?thesis by (simp add: b c)
  next
    case False
    with Cons.prems[of fc emb] obtain v where "compute_similarity q emb = Inr v" "v < th"
      by (auto simp: c)
    then show ?thesis using False by (simp add: b c)
  qed
  have "match_loop s q th best cs = Inr best"
    by (rule Cons.IH) (use Cons.prems in auto)
  with st show ?case by simp
qed

lemma similarities_Inr:
  "similarities s q uid = map Inr vs \<Longrightarrow> (fc, emb) \<in> set (candidates s uid) \<Longrightarrow>
     \<exists>v \<in> set vs. compute_similarity q emb = Inr v"
proof -
  assume a: "similarities s q uid = map Inr vs" and m: "(fc, emb) \<in> set (candidates s uid)"
  have "compute_similarity q emb \<in> set (similarities s q uid)"
    using m by (force simp: similarities_def)
  with a show ?thesis by auto
qed

text \<open>
  Claim C4. For every query embedding, user and threshold: when \<open>find_matching_person\<close>
  returns a person, the similarity of every candidate (a face of the user with a stored
  embedding and a person link) is defined and the largest of them is at least the
  threshold; and when every candidate's similarity is below the threshold, it returns
  no person.
\<close>

theorem find_matching_person_threshold:
  "(find_matching_person s q uid th = Inr (Some p) \<longrightarrow>
      (\<exists>vs. similarities s q uid = map Inr vs \<and> vs \<noteq> [] \<and> th \<le> Max (set vs))) \<and>
   ((\<exists>vs. similarities s q uid = map Inr vs \<and> (\<forall>v \<in> set vs. v < th)) \<longrightarrow>
      find_matching_person s q uid th = Inr None)"
proof (intro conjI impI)
  assume r: "find_matching_person s q uid th = Inr (Some p)"
  let ?all = "get_all_embeddings_for_user s uid"
  from r obtain b where lp: "match_loop s q th (- 1, None) ?all = Inr (b, Some p)"
    by (auto simp: find_matching_person_def split: sum.splits)
  have dfd: "\<exists>v. compute_similarity q emb = Inr v" if "(fc, emb) \<in> set (candidates s uid)" for fc emb
    using match_loop_defined[OF lp, of fc emb] that by (auto simp: candidates_def)
  define vs where "vs = map (\<lambda>(fc, emb). projr (compute_similarity q emb)) (candidates s uid)"
  have pr: "compute_similarity q emb = Inr (projr (compute_similarity q emb))"
    if "(fc, emb) \<in> set (candidates s uid)" for fc emb
    using dfd[OF that] by auto
  have eq: "similarities s q uid = map Inr vs"
    unfolding similarities_def vs_def using pr by auto
  from match_loop_source[OF lp] obtain fc emb v where
    hit: "(fc, emb) \<in> set ?all" "fa_person_id fc \<noteq> None" "compute_similarity q emb = Inr v" "th \<le> v"
    by auto
  then have "(fc, emb) \<in> set (candidates s uid)" by (simp add: candidates_def)
  then have "v \<in> set vs" using hit(3) by (force simp: vs_def)
  then have "vs \<noteq> []" and "v \<le> Max (set vs)" by auto
  with hit(4) eq show "\<exists>vs. similarities s q uid = map Inr vs \<and> vs \<noteq> [] \<and> th \<le> Max (set vs)"
    by (intro exI[of _ vs]) auto
next
  assume "\<exists>vs. similarities s q uid = map Inr vs \<and> (\<forall>v \<in> set vs. v < th)"
  then obtain vs where eq: "similarities s q uid = map Inr vs" and lt: "\<forall>v \<in> set vs. v < th"
    by blast
  have "match_loop s q th (- 1, None) (candidates s uid) = Inr (- 1, None)"
  proof (rule match_loop_below)
    fix fc emb
    assume "(fc, emb) \<in> set (candidates s uid)"
    from similarities_Inr[OF eq this] lt
    show "\<exists>v. compute_similarity q emb = Inr v \<and> v < th" by auto
  qed
  then have "match_loop s q th (- 1, None) (get_all_embeddings_for_user s uid) = Inr (- 1, None)"
    unfolding candidates_def match_loop_skip_unlinked .
  then show "find_matching_person s q uid th = Inr None"
    by (simp add: find_matching_person_def)
qed

subsection \<open>Evaluation on the example stores\<close>

lemmas ex_defs = mk_photo_def mk_face_def mk_person_def
lemmas match_defs = find_matching_person_def get_all_embeddings_for_user_def List.map_filter_def
  compute_similarity_def linalg_norm_def np_dot_def face_person_def person_get_def
  candidates_def similarities_def

lemma ex_match_similarities: "similarities ex_match [1, 0] 1 = map Inr [0, 1, 1]"
  by (simp add: ex_match_def ex_defs match_defs)

lemma ex_match_find:
  "find_matching_person ex_match [1, 0] 1 (6 / 10) = Inr (Some (mk_person 1 1 ''Ann''))"
  by (simp add: ex_match_def ex_defs match_defs)

lemma ex_match_far_similarities: "similarities ex_match [- 1, 0] 1 = map Inr [0, - 1, - 1]"
  by (simp add: ex_match_def ex_defs match_defs)

theorem find_matching_person_threshold_witness:
  "find_matching_person ex_match [1, 0] 1 (6 / 10) = Inr (Some (mk_person 1 1 ''Ann'')) \<and>
   (\<exists>vs. similarities ex_match [1, 0] 1 = map Inr vs \<and> vs \<noteq> [] \<and> 6 / 10 \<le> Max (set vs)) \<and>
   similarities ex_match [- 1, 0] 1 = map Inr [0, - 1, - 1] \<and>
   find_matching_person ex_match [- 1, 0] 1 (6 / 10) = Inr None"
proof -
  have far: "\<exists>vs. similarities ex_match [- 1, 0] 1 = map Inr vs \<and> (\<forall>v \<in> set vs. v < 6 / 10)"
    using ex_match_far_similarities by (intro exI[of _ "[0, - 1, - 1]"]) simp
  from find_matching_person_threshold[of ex_match "[1, 0]" 1 "6 / 10" "mk_person 1 1 ''Ann''"]
    find_matching_person_threshold[of ex_match "[- 1, 0]" 1 "6 / 10"] far
  show ?thesis
    using ex_match_find ex_match_far_similarities by blast
qed


lemma match_loop_before:
  "(\<And>fc emb. (fc, emb) \<in> set cs \<Longrightarrow> fa_person_id fc \<noteq> None \<Longrightarrow>
        \<exists>v. compute_similarity q emb = Inr v \<and> v < m)
   \<Longrightarrow> fst best < m
   \<Longrightarrow> \<exists>best'. match_loop s q th best cs = Inr best' \<and> fst best' < m"
proof (induction cs arbitrary: best)
  case Nil
  then show ?case by simp
next
  case (Cons c cs)
  obtain bs bp where b: "best = (bs, bp)" by (cases best)
  obtain fc emb where c: "c = (fc, emb)" by (cases c)
  have "\<exists>best1. match_step s q th best c = Inr best1 \<and> fst best1 < m"
  proof (cases "fa_person_id fc = None")
    case True
    then show ?thesis using Cons.prems(2) by (simp add: b c)
  next
    case False
    with Cons.prems(1)[of fc emb] obtain v where "compute_similarity q emb = Inr v" "v < m"
      by (auto simp: c)
    then show ?thesis using False Cons.prems(2) by (simp add: b c)
  qed
  then obtain best1 where st: "match_step s q th best c = Inr best1" and lt: "fst best1 < m"
    by blast
  have "\<exists>best'. match_loop s q th best1 cs = Inr best' \<and> fst best' < m"
    by (rule Cons.IH[OF _ lt]) (use Cons.prems(1) in auto)
  with st show ?case by simp
qed

lemma match_loop_after:
  "(\<And>fc emb. (fc, emb) \<in> set cs \<Longrightarrow> fa_person_id fc \<noteq> None \<Longrightarrow>
        \<exists>v. compute_similarity q emb = Inr v \<and> v \<le> m)
   \<Longrightarrow> match_loop s q th (m, r) cs = Inr (m, r)"
proof (induction cs)
  case Nil
  show ?case by simp
next
  case (Cons c cs)
  obtain fc emb where c: "c = (fc, emb)" by (cases c)
  have st: "match_step s q th (m, r) c = Inr (m, r)"
  proof (cases "fa_person_id fc = None")
    case True
    then show ?thesis by (simp add: c)
  next
    case False
    with Cons.prems[of fc emb] obtain v where "compute_similarity q emb = Inr v" "v \<le> m"
      by (auto simp: c)
    then show ?thesis using False by (simp add: c)
  qed
  have "match_loop s q th (m, r) cs = Inr (m, r)"
    by (rule Cons.IH) (use Cons.prems in auto)
  with st show ?case by simp
qed

lemma match_loop_append:
  "match_loop s q th best xs = Inr best' \<Longrightarrow>
     match_loop s q th best (xs @ ys) = match_loop s q th best' ys"
  by (induction xs arbitrary: best) (auto split: sum.splits)

lemma candidates_linked: "(fc, emb) \<in> set (candidates s uid) \<Longrightarrow> fa_person_id fc \<noteq> None"
  by (auto simp: candidates_def)

text \<open>
  Claim C5, as amended. A step of the scan changes the current best only when the
  candidate's similarity is strictly greater than the best similarity recorded so far.
  Consequently, when the largest similarity among the candidates is at or above the
  threshold and greater than \<open>- 1\<close> (the value the scan starts from), the person of the
  first candidate that reaches it, in enumeration order, is returned.
\<close>

theorem find_matching_person_first_maximum:
  "(match_step s q th (bs, bp) (fc, emb) = Inr best' \<and> best' \<noteq> (bs, bp) \<longrightarrow>
      (\<exists>sim. compute_similarity q emb = Inr sim \<and> bs < sim)) \<and>
   (candidates s uid = pre @ (fc, emb) # post \<and> compute_similarity q emb = Inr m \<and>
    (\<forall>(f', e') \<in> set pre. \<exists>v. compute_similarity q e' = Inr v \<and> v < m) \<and>
    (\<forall>(f', e') \<in> set post. \<exists>v. compute_similarity q e' = Inr v \<and> v \<le> m) \<and>
    th \<le> m \<and> - 1 < m \<longrightarrow>
      find_matching_person s q uid th = Inr (face_person s fc))"
proof (intro conjI impI)
  assume "match_step s q th (bs, bp) (fc, emb) = Inr best' \<and> best' \<noteq> (bs, bp)"
  then show "\<exists>sim. compute_similarity q emb = Inr sim \<and> bs < sim"
    by (auto split: if_splits sum.splits)
next
  assume a: "candidates s uid = pre @ (fc, emb) # post \<and> compute_similarity q emb = Inr m \<and>
    (\<forall>(f', e') \<in> set pre. \<exists>v. compute_similarity q e' = Inr v \<and> v < m) \<and>
    (\<forall>(f', e') \<in> set post. \<exists>v. compute_similarity q e' = Inr v \<and> v \<le> m) \<and>
    th \<le> m \<and> - 1 < m"
  then have cs: "candidates s uid = pre @ (fc, emb) # post"
    and sim: "compute_similarity q emb = Inr m"
    and pre: "\<And>f' e'. (f', e') \<in> set pre \<Longrightarrow> \<exists>v. compute_similarity q e' = Inr v \<and> v < m"
    and post: "\<And>f' e'. (f', e') \<in> set post \<Longrightarrow> \<exists>v. compute_similarity q e' = Inr v \<and> v \<le> m"
    and th: "th \<le> m" and m: "- 1 < m"
    by auto
  have linked: "fa_person_id fc \<noteq> None"
    by (rule candidates_linked[of fc emb s uid]) (simp add: cs)
  from match_loop_before[of pre q m "(- 1, None)" s th] pre m
  obtain b1 where l1: "match_loop s q th (- 1, None) pre = Inr b1" and lt: "fst b1 < m"
    by auto
  have st: "match_step s q th b1 (fc, emb) = Inr (m, face_person s fc)"
    using sim th lt linked by (cases b1) simp
  have l3: "match_loop s q th (m, face_person s fc) post = Inr (m, face_person s fc)"
    by (rule match_loop_after) (use post in auto)
  have "match_loop s q th (- 1, None) (candidates s uid) = Inr (m, face_person s fc)"
    unfolding cs match_loop_append[OF l1] using st l3 by simp
  then have "match_loop s q th (- 1, None) (get_all_embeddings_for_user s uid)
      = Inr (m, face_person s fc)"
    unfolding candidates_def match_loop_skip_unlinked .
  then show "find_matching_person s q uid th = Inr (face_person s fc)"
    by (simp add: find_matching_person_def)
qed

lemma ex_match_candidates:
  "candidates ex_match 1 =
     [(mk_face 1 1 (Some 2) (Some [0, 1]), [0, 1])] @
     (mk_face 2 1 (Some 1) (Some [1, 0]), [1, 0]) # [(mk_face 3 1 (Some 2) (Some [1, 0]), [1, 0])]"
  by (simp add: ex_match_def ex_defs match_defs)

lemma ex_sims:
  "compute_similarity [1, 0] [1, 0] = Inr 1" "compute_similarity [1, 0] [0, 1] = Inr 0"
  "compute_similarity [1, 0] [- 1, 0] = Inr (- 1)"
  by (simp_all add: match_defs)

theorem find_matching_person_first_maximum_witness:
  "match_step ex_match [1, 0] (6 / 10) (- 1, None) (mk_face 2 1 (Some 1) (Some [1, 0]), [1, 0])
     = Inr (1, Some (mk_person 1 1 ''Ann'')) \<and>
   compute_similarity [1, 0] [1, 0] = Inr 1 \<and>
   similarities ex_match [1, 0] 1 = map Inr [0, 1, 1] \<and>
   find_matching_person ex_match [1, 0] 1 (6 / 10) = Inr (Some (mk_person 1 1 ''Ann''))"
proof -
  have fp: "face_person ex_match (mk_face 2 1 (Some 1) (Some [1, 0])) = Some (mk_person 1 1 ''Ann'')"
    by (simp add: ex_match_def ex_defs match_defs)
  have st: "match_step ex_match [1, 0] (6 / 10) (- 1, None) (mk_face 2 1 (Some 1) (Some [1, 0]), [1, 0])
     = Inr (1, Some (mk_person 1 1 ''Ann''))"
    using fp by (simp add: ex_sims) (simp add: mk_face_def)
  have "find_matching_person ex_match [1, 0] 1 (6 / 10)
      = Inr (face_person ex_match (mk_face 2 1 (Some 1) (Some [1, 0])))"
    using find_matching_person_first_maximum[of ex_match "[1, 0]" "6 / 10" "- 1" None
        "mk_face 2 1 (Some 1) (Some [1, 0])" "[1, 0]" "(1, Some (mk_person 1 1 ''Ann''))" 1
        "[(mk_face 1 1 (Some 2) (Some [0, 1]), [0, 1])]"
        "[(mk_face 3 1 (Some 2) (Some [1, 0]), [1, 0])]" 1]
      ex_match_candidates ex_sims
    by simp
  with st fp show ?thesis
    using ex_sims(1) ex_match_similarities by simp
qed

lemma ex_opposite_similarities: "similarities ex_opposite [1, 0] 1 = map Inr [- 1, - 1]"
  by (simp add: ex_opposite_def ex_defs match_defs)

text \<open>
  With a threshold of \<open>- 1\<close> and two candidates that tie at the largest similarity
  \<open>- 1\<close>, the scan never leaves its initial state and no person is returned, although the
  first tied face is linked to a person.
\<close>

theorem find_matching_person_tie_counterexample:
  "similarities ex_opposite [1, 0] 1 = map Inr [- 1, - 1] \<and>
   - 1 \<le> Max (set [- 1, - 1 :: real]) \<and>
   face_person ex_opposite (fst (hd (candidates ex_opposite 1))) = Some (mk_person 1 1 ''Ann'') \<and>
   find_matching_person ex_opposite [1, 0] 1 (- 1) = Inr None"
  by (simp add: ex_opposite_def ex_defs match_defs)

subsection \<open>The person registry\<close>

lemmas registry_defs = assign_name_def strip_def py_isspace_def assign_face_to_person_def face_get_def
  set_face_person_def
  new_person_def next_id_def photo_get_def get_photo_by_id_def delete_person_def
  get_persons_def person_to_dict_def person_faces_def create_person_def

lemma assign_face_to_person_not_found:
  "face_get s face_id = None \<Longrightarrow> assign_face_to_person s now face_id name user_id = (s, None)"
  by (simp add: assign_face_to_person_def)

text \<open>
  Claim C2, at the failing input. Face 1 is on photo 1, which belongs to user 1. When
  user 2 assigns it the name Eve, the operation does not answer not-found: it answers
  200, creates Eve in user 2's scope and moves the face of user 1 from Ann to Eve.
\<close>

theorem assign_face_to_person_cross_user:
  "map_option ph_user_id (photo_get ex_album 1) = Some 1 \<and>
   map_option fa_photo_id (face_get ex_album 1) = Some 1 \<and>
   map_option fa_person_id (face_get ex_album 1) = Some (Some 1) \<and>
   snd (assign_name ex_album 5 1 (Some ''Eve'') 2) = 200 \<and>
   map_option fa_person_id (face_get (fst (assign_name ex_album 5 1 (Some ''Eve'') 2)) 1) = Some (Some 3) \<and>
   persons (fst (assign_name ex_album 5 1 (Some ''Eve'') 2)) =
     persons ex_album @ [\<lparr>pe_id = 3, pe_user_id = 2, pe_name = ''Eve'', pe_avatar_path = None,
                            pe_created_at = Some 5\<rparr>]"
  by (simp add: ex_album_def ex_defs registry_defs Let_def)

text \<open>
  Claim C8. A successful \<open>delete_person\<close> finds the person in the user's scope, leaves the
  photos alone, removes exactly that person, keeps every face row in place, sets the
  person link to null on the faces that referenced the person and changes no other link
  and no other field of any face.
\<close>

theorem delete_person_frame:
  "delete_person s person_id user_id = (s', True) \<longrightarrow>
     (\<exists>p \<in> set (persons s). pe_id p = person_id \<and> pe_user_id p = user_id) \<and>
     photos s' = photos s \<and>
     persons s' = filter (\<lambda>p. pe_id p \<noteq> person_id) (persons s) \<and>
     length (faces s') = length (faces s) \<and>
     (\<forall>i < length (faces s).
        fa_person_id (faces s' ! i) =
          (if fa_person_id (faces s ! i) = Some person_id then None else fa_person_id (faces s ! i)) \<and>
        fa_id (faces s' ! i) = fa_id (faces s ! i) \<and>
        fa_photo_id (faces s' ! i) = fa_photo_id (faces s ! i) \<and>
        fa_x (faces s' ! i) = fa_x (faces s ! i) \<and>
        fa_y (faces s' ! i) = fa_y (faces s ! i) \<and>
        fa_width (faces s' ! i) = fa_width (faces s ! i) \<and>
        fa_height (faces s' ! i) = fa_height (faces s ! i) \<and>
        fa_confidence (faces s' ! i) = fa_confidence (faces s ! i) \<and>
        fa_embedding (faces s' ! i) = fa_embedding (faces s ! i) \<and>
        fa_embedding_model (faces s' ! i) = fa_embedding_model (faces s ! i))"
proof
  assume a: "delete_person s person_id user_id = (s', True)"
  then obtain person where
    f: "find (\<lambda>p. pe_id p = person_id \<and> pe_user_id p = user_id) (persons s) = Some person"
    by (auto simp: delete_person_def split: option.splits)
  then have pid: "pe_id person = person_id" and pm: "person \<in> set (persons s)"
    and pu: "pe_user_id person = user_id"
    by (auto simp: find_Some_iff)
  from a f pid have s': "s' = s\<lparr>faces := map (\<lambda>f. if fa_person_id f = Some person_id
                                 then f\<lparr>fa_person_id := None\<rparr> else f) (faces s),
             persons := filter (\<lambda>p. pe_id p \<noteq> person_id) (persons s)\<rparr>"
    by (simp add: delete_person_def)
  show "(\<exists>p \<in> set (persons s). pe_id p = person_id \<and> pe_user_id p = user_id) \<and>
     photos s' = photos s \<and>
     persons s' = filter (\<lambda>p. pe_id p \<noteq> person_id) (persons s) \<and>
     length (faces s') = length (faces s) \<and>
     (\<forall>i < length (faces s).
        fa_person_id (faces s' ! i) =
          (if fa_person_id (faces s ! i) = Some person_id then None else fa_person_id (faces s ! i)) \<and>
        fa_id (faces s' ! i) = fa_id (faces s ! i) \<and>
        fa_photo_id (faces s' ! i) = fa_photo_id (faces s ! i) \<and>
        fa_x (faces s' ! i) = fa_x (faces s ! i) \<and>
        fa_y (faces s' ! i) = fa_y (faces s ! i) \<and>
        fa_width (faces s' ! i) = fa_width (faces s ! i) \<and>
        fa_height (faces s' ! i) = fa_height (faces s ! i) \<and>
        fa_confidence (faces s' ! i) = fa_confidence (faces s ! i) \<and>
        fa_embedding (faces s' ! i) = fa_embedding (faces s ! i) \<and>
        fa_embedding_model (faces s' ! i) = fa_embedding_model (faces s ! i))"
    using pid pm pu by (auto simp: s')
qed

theorem delete_person_frame_witness:
  "delete_person ex_album 1 1 =
     (\<lparr>photos = photos ex_album,
       faces = [mk_face 1 1 None None, mk_face 2 2 None (Some [1, 0]),
                mk_face 3 2 (Some 2) None, mk_face 4 3 None None],
       persons = [mk_person 2 1 ''Bob'']\<rparr>, True) \<and>
   fa_embedding (faces (fst (delete_person ex_album 1 1)) ! 1) = fa_embedding (faces ex_album ! 1) \<and>
   fa_person_id (faces (fst (delete_person ex_album 1 1)) ! 1) = None \<and>
   fa_person_id (faces (fst (delete_person ex_album 1 1)) ! 2) = Some 2"
proof -
  have ev: "delete_person ex_album 1 1 =
     (\<lparr>photos = photos ex_album,
       faces = [mk_face 1 1 None None, mk_face 2 2 None (Some [1, 0]),
                mk_face 3 2 (Some 2) None, mk_face 4 3 None None],
       persons = [mk_person 2 1 ''Bob'']\<rparr>, True)"
    by (simp add: ex_album_def ex_defs registry_defs)
  have len: "length (faces ex_album) = 4" by (simp add: ex_album_def)
  have l1: "fa_person_id (faces ex_album ! 1) = Some 1" "fa_person_id (faces ex_album ! 2) = Some 2"
    by (simp_all add: ex_album_def ex_defs)
  from delete_person_frame[of ex_album 1 1 "fst (delete_person ex_album 1 1)"] ev
  have all: "\<forall>i < 4.
        fa_person_id (faces (fst (delete_person ex_album 1 1)) ! i) =
          (if fa_person_id (faces ex_album ! i) = Some 1 then None else fa_person_id (faces ex_album ! i)) \<and>
        fa_embedding (faces (fst (delete_person ex_album 1 1)) ! i) = fa_embedding (faces ex_album ! i)"
    by (simp add: len)
  from all[rule_format, of 1] all[rule_format, of 2] l1 ev show ?thesis by simp
qed

text \<open>
  Claim C10. \<open>get_persons\<close> lists exactly the user's persons that have at least one
  referencing face, each once; every listed entry has a positive face count, so a person
  without faces is never listed.
\<close>

theorem get_persons_listing:
  "set (get_persons s user_id) =
     person_to_dict s ` {p \<in> set (persons s). pe_user_id p = user_id \<and>
                            (\<exists>f \<in> set (faces s). fa_person_id f = Some (pe_id p))} \<and>
   length (get_persons s user_id) =
     length (filter (\<lambda>p. pe_user_id p = user_id \<and>
                          (\<exists>f \<in> set (faces s). fa_person_id f = Some (pe_id p))) (persons s)) \<and>
   (\<forall>d \<in> set (get_persons s user_id). 0 < pd_photoCount d)"
proof -
  let ?has = "\<lambda>p. \<exists>f \<in> set (faces s). fa_person_id f = Some (pe_id p)"
  have has: "person_faces s (pe_id p) \<noteq> [] \<longleftrightarrow> ?has p" for p
    by (auto simp: person_faces_def filter_empty_conv)
  have gp: "get_persons s user_id =
      map (person_to_dict s) (filter ?has (sort_key pe_name (filter (\<lambda>p. pe_user_id p = user_id) (persons s))))"
    by (simp add: get_persons_def has)
  have "length (filter ?has (sort_key pe_name (filter (\<lambda>p. pe_user_id p = user_id) (persons s))))
      = length (filter ?has (filter (\<lambda>p. pe_user_id p = user_id) (persons s)))"
    by (simp add: filter_sort)
  then have len: "length (get_persons s user_id) =
     length (filter (\<lambda>p. pe_user_id p = user_id \<and> ?has p) (persons s))"
    by (simp add: gp conj_commute)
  have st: "set (get_persons s user_id) =
     person_to_dict s ` {p \<in> set (persons s). pe_user_id p = user_id \<and> ?has p}"
    unfolding gp by auto
  have cnt: "\<forall>d \<in> set (get_persons s user_id). 0 < pd_photoCount d"
    unfolding gp using has by (auto simp: person_to_dict_def)
  from st len cnt show ?thesis by blast
qed

theorem get_persons_listing_witness:
  "get_persons ex_registry 1 =
     [\<lparr>pd_id = 1, pd_name = ''Ann'', pd_photoCount = 2, pd_created_at = Some 0\<rparr>,
      \<lparr>pd_id = 2, pd_name = ''Bob'', pd_photoCount = 1, pd_created_at = Some 0\<rparr>] \<and>
   person_get ex_registry 3 = Some (mk_person 3 1 ''Cy'') \<and>
   person_faces ex_registry 3 = [] \<and>
   3 \<notin> pd_id ` set (get_persons ex_registry 1) \<and>
   length (get_persons ex_registry 1) = 2"
proof -
  have ev: "get_persons ex_registry 1 =
     [\<lparr>pd_id = 1, pd_name = ''Ann'', pd_photoCount = 2, pd_created_at = Some 0\<rparr>,
      \<lparr>pd_id = 2, pd_name = ''Bob'', pd_photoCount = 1, pd_created_at = Some 0\<rparr>]"
    by (simp add: ex_registry_def ex_album_def ex_defs registry_defs)
  have cy: "person_get ex_registry 3 = Some (mk_person 3 1 ''Cy'')" "person_faces ex_registry 3 = []"
    by (simp_all add: ex_registry_def ex_album_def ex_defs person_get_def person_faces_def)
  from get_persons_listing[of ex_registry 1]
  have cnt: "\<forall>d \<in> set (get_persons ex_registry 1). 0 < pd_photoCount d" by blast
  have "3 \<notin> pd_id ` set (get_persons ex_registry 1)" "length (get_persons ex_registry 1) = 2"
    using cnt ev by simp_all
  with ev cy show ?thesis by simp
qed

subsection \<open>Orphan cleanup after photo deletion\<close>

lemma person_get_id: "person_get s pid = Some person \<Longrightarrow> pe_id person = pid"
  by (auto simp: person_get_def find_Some_iff)

lemma person_get_None: "person_get s pid = None \<longleftrightarrow> (\<forall>p \<in> set (persons s). pe_id p \<noteq> pid)"
  by (auto simp: person_get_def find_None_iff)

lemma cleanup_orphan_faces [simp]: "faces (cleanup_orphan pid s) = faces s"
  by (simp add: cleanup_orphan_def split: option.splits)

lemma cleanup_orphan_photos [simp]: "photos (cleanup_orphan pid s) = photos s"
  by (simp add: cleanup_orphan_def split: option.splits)

lemma cleanup_orphan_persons:
  "persons (cleanup_orphan pid s) =
     filter (\<lambda>p. \<not> (pe_id p = pid \<and> person_faces s pid = [])) (persons s)"
proof (cases "person_get s pid")
  case None
  then have "filter (\<lambda>p. \<not> (pe_id p = pid \<and> person_faces s pid = [])) (persons s) = persons s"
    by (auto simp: person_get_None filter_id_conv)
  with None show ?thesis by (simp add: cleanup_orphan_def)
next
  case (Some person)
  then have "pe_id person = pid" by (rule person_get_id)
  with Some show ?thesis
    by (auto simp: cleanup_orphan_def filter_id_conv)
qed

lemma person_faces_cong: "faces s' = faces s \<Longrightarrow> person_faces s' pid = person_faces s pid"
  by (simp add: person_faces_def)

lemma fold_cleanup_faces [simp]: "faces (fold cleanup_orphan ids s) = faces s"
  by (induction ids arbitrary: s) auto

lemma fold_cleanup_photos [simp]: "photos (fold cleanup_orphan ids s) = photos s"
  by (induction ids arbitrary: s) auto

lemma fold_cleanup_persons:
  "persons (fold cleanup_orphan ids s) =
     filter (\<lambda>p. \<not> (pe_id p \<in> set ids \<and> person_faces s (pe_id p) = [])) (persons s)"
proof (induction ids arbitrary: s)
  case Nil
  show ?case by simp
next
  case (Cons i ids)
  have pf: "person_faces (cleanup_orphan i s) q = person_faces s q" for q
    by (rule person_faces_cong) simp
  show ?case
    unfolding fold_simps Cons.IH pf cleanup_orphan_persons filter_filter
    by (rule filter_cong) auto
qed

lemma cleanup_orphans_faces [simp]: "faces (cleanup_orphans ids s) = faces s"
  by (simp add: cleanup_orphans_def)

lemma cleanup_orphans_photos [simp]: "photos (cleanup_orphans ids s) = photos s"
  by (simp add: cleanup_orphans_def)

lemma cleanup_orphans_persons:
  "persons (cleanup_orphans ids s) =
     filter (\<lambda>p. \<not> (pe_id p \<in> set ids \<and> person_faces s (pe_id p) = [])) (persons s)"
  by (simp add: cleanup_orphans_def fold_cleanup_persons)

lemma person_faces_empty:
  "person_faces s pid = [] \<longleftrightarrow> \<not> (\<exists>f \<in> set (faces s). fa_person_id f = Some pid)"
  by (auto simp: person_faces_def filter_empty_conv)

lemma in_set_map_filter: "y \<in> set (List.map_filter g xs) \<longleftrightarrow> (\<exists>x \<in> set xs. g x = Some y)"
  by (induction xs) (auto simp: map_filter_simps split: option.splits)

lemma linked_person_ids_iff:
  "pid \<in> set (linked_person_ids s photo) \<longleftrightarrow>
     pid \<noteq> 0 \<and> (\<exists>f \<in> set (faces s). fa_photo_id f = ph_id photo \<and> fa_person_id f = Some pid)"
  by (auto simp: linked_person_ids_def in_set_map_filter photo_faces_def truthy_id_def
      split: option.splits if_splits)

lemma delete_photo_Some:
  assumes "delete_photo s photo_id user_id = (s', True)"
  obtains photo where "get_photo_by_id s photo_id user_id = Some photo" "ph_id photo = photo_id"
    "s' = cleanup_orphans (remdups (linked_person_ids s photo)) (delete_photo_row s photo)"
proof -
  from assms obtain photo where g: "get_photo_by_id s photo_id user_id = Some photo"
    by (auto simp: delete_photo_def split: option.splits)
  then have "ph_id photo = photo_id" by (auto simp: get_photo_by_id_def find_Some_iff)
  moreover from assms g
  have "s' = cleanup_orphans (remdups (linked_person_ids s photo)) (delete_photo_row s photo)"
    by (simp add: delete_photo_def Let_def)
  ultimately show ?thesis using g that by blast
qed

lemma delete_photo_effect:
  assumes "delete_photo s photo_id user_id = (s', True)"
  shows "faces s' = filter (\<lambda>f. fa_photo_id f \<noteq> photo_id) (faces s)"
    and "persons s' =
      filter (\<lambda>p. \<not> (pe_id p \<noteq> 0 \<and>
                       (\<exists>f \<in> set (faces s). fa_photo_id f = photo_id \<and> fa_person_id f = Some (pe_id p)) \<and>
                       \<not> (\<exists>f \<in> set (faces s'). fa_person_id f = Some (pe_id p)))) (persons s)"
proof -
  from assms obtain photo where id: "ph_id photo = photo_id"
    and s': "s' = cleanup_orphans (remdups (linked_person_ids s photo)) (delete_photo_row s photo)"
    by (rule delete_photo_Some)
  show f: "faces s' = filter (\<lambda>f. fa_photo_id f \<noteq> photo_id) (faces s)"
    by (simp add: s' delete_photo_row_def id)
  have pf: "person_faces (delete_photo_row s photo) q = person_faces s' q" for q
    by (rule person_faces_cong[symmetric]) (simp add: s')
  show "persons s' =
      filter (\<lambda>p. \<not> (pe_id p \<noteq> 0 \<and>
                       (\<exists>f \<in> set (faces s). fa_photo_id f = photo_id \<and> fa_person_id f = Some (pe_id p)) \<and>
                       \<not> (\<exists>f \<in> set (faces s'). fa_person_id f = Some (pe_id p)))) (persons s)"
    unfolding s' cleanup_orphans_persons pf[unfolded s'] 
    by (simp add: delete_photo_row_def linked_person_ids_iff id person_faces_empty)
qed

lemma set_fold_insert: "set (fold List.insert xs ys) = set xs \<union> set ys"
  by (induction xs arbitrary: ys) auto

lemma batch_loop_effect:
  "batch_loop phs ids n s = (ids', n', s') \<Longrightarrow>
     faces s' = filter (\<lambda>f. fa_photo_id f \<notin> ph_id ` set phs) (faces s) \<and>
     photos s' = filter (\<lambda>p. ph_id p \<notin> ph_id ` set phs) (photos s) \<and>
     persons s' = persons s \<and> n' = n + length phs \<and>
     set ids' = set ids \<union>
       {pid. pid \<noteq> 0 \<and>
             (\<exists>f \<in> set (faces s). fa_photo_id f \<in> ph_id ` set phs \<and> fa_person_id f = Some pid)}"
proof (induction phs arbitrary: ids n s)
  case Nil
  then show ?case by auto
next
  case (Cons photo rest)
  let ?s1 = "delete_photo_row s photo"
  let ?ids1 = "fold List.insert (linked_person_ids s photo) ids"
  from Cons.prems have "batch_loop rest ?ids1 (n + 1) ?s1 = (ids', n', s')" by simp
  from Cons.IH[OF this]
  have f: "faces s' = filter (\<lambda>f. fa_photo_id f \<notin> ph_id ` set rest) (faces ?s1)"
    and ph: "photos s' = filter (\<lambda>p. ph_id p \<notin> ph_id ` set rest) (photos ?s1)"
    and p: "persons s' = persons ?s1" and n: "n' = n + 1 + length rest"
    and i: "set ids' = set ?ids1 \<union>
       {pid. pid \<noteq> 0 \<and>
             (\<exists>f \<in> set (faces ?s1). fa_photo_id f \<in> ph_id ` set rest \<and> fa_person_id f = Some pid)}"
    by auto
  have f': "faces s' = filter (\<lambda>f. fa_photo_id f \<notin> ph_id ` set (photo # rest)) (faces s)"
    unfolding f by (simp add: delete_photo_row_def conj_commute)
  have ph': "photos s' = filter (\<lambda>p. ph_id p \<notin> ph_id ` set (photo # rest)) (photos s)"
    unfolding ph by (simp add: delete_photo_row_def conj_commute)
  have i': "set ids' = set ids \<union>
       {pid. pid \<noteq> 0 \<and>
             (\<exists>f \<in> set (faces s). fa_photo_id f \<in> ph_id ` set (photo # rest) \<and> fa_person_id f = Some pid)}"
    unfolding i set_fold_insert
    by (auto simp: linked_person_ids_iff delete_photo_row_def)
  from f' ph' i' p n show ?case by (simp add: delete_photo_row_def)
qed

lemma delete_photos_batch_effect:
  assumes "delete_photos_batch s photo_ids user_id = (s', n)"
  shows "faces s' = filter (\<lambda>f. fa_photo_id f \<notin>
            ph_id ` {q \<in> set (photos s). ph_id q \<in> set photo_ids \<and> ph_user_id q = user_id}) (faces s)"
    and "persons s' =
      filter (\<lambda>p. \<not> (pe_id p \<noteq> 0 \<and>
           (\<exists>f \<in> set (faces s). fa_photo_id f \<in>
               ph_id ` {q \<in> set (photos s). ph_id q \<in> set photo_ids \<and> ph_user_id q = user_id} \<and>
               fa_person_id f = Some (pe_id p)) \<and>
           \<not> (\<exists>f \<in> set (faces s'). fa_person_id f = Some (pe_id p)))) (persons s)"
proof -
  let ?phs = "filter (\<lambda>p. ph_id p \<in> set photo_ids \<and> ph_user_id p = user_id) (photos s)"
  let ?D = "ph_id ` {q \<in> set (photos s). ph_id q \<in> set photo_ids \<and> ph_user_id q = user_id}"
  have D: "ph_id ` set ?phs = ?D" by auto
  have "faces s' = filter (\<lambda>f. fa_photo_id f \<notin> ?D) (faces s) \<and>
    persons s' =
      filter (\<lambda>p. \<not> (pe_id p \<noteq> 0 \<and>
           (\<exists>f \<in> set (faces s). fa_photo_id f \<in> ?D \<and> fa_person_id f = Some (pe_id p)) \<and>
           \<not> (\<exists>f \<in> set (faces s'). fa_person_id f = Some (pe_id p)))) (persons s)"
  proof (cases "?phs = []")
    case True
    then have s': "s' = s" using assms by (simp add: delete_photos_batch_def)
    from True have e: "?D = {}" unfolding D[symmetric] by simp
    show ?thesis unfolding e s' by simp
  next
    case False
    obtain ids' n' s1 where bl: "batch_loop ?phs [] 0 s = (ids', n', s1)"
      by (cases "batch_loop ?phs [] 0 s") auto
    with False assms have s': "s' = cleanup_orphans ids' s1"
      by (simp add: delete_photos_batch_def)
    from batch_loop_effect[OF bl]
    have f1: "faces s1 = filter (\<lambda>f. fa_photo_id f \<notin> ?D) (faces s)"
      and p1: "persons s1 = persons s"
      and i: "set ids' = {pid. pid \<noteq> 0 \<and>
             (\<exists>f \<in> set (faces s). fa_photo_id f \<in> ?D \<and> fa_person_id f = Some pid)}"
      unfolding D by auto
    have f: "faces s' = filter (\<lambda>f. fa_photo_id f \<notin> ?D) (faces s)"
      by (simp add: s' f1)
    have pf: "person_faces s1 q = person_faces s' q" for q
      by (rule person_faces_cong[symmetric]) (simp add: s')
    have "persons s' =
      filter (\<lambda>p. \<not> (pe_id p \<noteq> 0 \<and>
           (\<exists>f \<in> set (faces s). fa_photo_id f \<in> ?D \<and> fa_person_id f = Some (pe_id p)) \<and>
           \<not> (\<exists>f \<in> set (faces s'). fa_person_id f = Some (pe_id p)))) (persons s)"
      unfolding s' cleanup_orphans_persons pf[unfolded s'] i p1
      by (simp add: person_faces_empty)
    with f show ?thesis by simp
  qed
  then show "faces s' = filter (\<lambda>f. fa_photo_id f \<notin> ?D) (faces s)"
    and "persons s' =
      filter (\<lambda>p. \<not> (pe_id p \<noteq> 0 \<and>
           (\<exists>f \<in> set (faces s). fa_photo_id f \<in> ?D \<and> fa_person_id f = Some (pe_id p)) \<and>
           \<not> (\<exists>f \<in> set (faces s'). fa_person_id f = Some (pe_id p)))) (persons s)"
    by simp_all
qed

text \<open>
  Claim C7. After \<open>delete_photo\<close>, and after \<open>delete_photos_batch\<close>, a person (with a
  nonzero primary key, as every inserted row has) that was referenced by a face of a
  deleted photo still exists exactly when a face still references it; the faces left are
  those of the photos that were not deleted.
\<close>

theorem delete_photo_orphan_cleanup:
  "(delete_photo s photo_id user_id = (s', True) \<and> fc \<in> set (faces s) \<and>
    fa_photo_id fc = photo_id \<and> fa_person_id fc = Some (pe_id p) \<and> p \<in> set (persons s) \<and>
    pe_id p \<noteq> 0 \<longrightarrow>
      faces s' = filter (\<lambda>f. fa_photo_id f \<noteq> photo_id) (faces s) \<and>
      (p \<in> set (persons s') \<longleftrightarrow> (\<exists>f \<in> set (faces s'). fa_person_id f = Some (pe_id p)))) \<and>
   (delete_photos_batch s photo_ids user_id = (s'', n) \<and> q \<in> set (photos s) \<and>
    ph_id q \<in> set photo_ids \<and> ph_user_id q = user_id \<and> fc \<in> set (faces s) \<and>
    fa_photo_id fc = ph_id q \<and> fa_person_id fc = Some (pe_id p) \<and> p \<in> set (persons s) \<and>
    pe_id p \<noteq> 0 \<longrightarrow>
      faces s'' = filter (\<lambda>f. fa_photo_id f \<notin>
          ph_id ` {q \<in> set (photos s). ph_id q \<in> set photo_ids \<and> ph_user_id q = user_id}) (faces s) \<and>
      (p \<in> set (persons s'') \<longleftrightarrow> (\<exists>f \<in> set (faces s''). fa_person_id f = Some (pe_id p))))"
proof (intro conjI impI)
  assume a: "delete_photo s photo_id user_id = (s', True) \<and> fc \<in> set (faces s) \<and>
    fa_photo_id fc = photo_id \<and> fa_person_id fc = Some (pe_id p) \<and> p \<in> set (persons s) \<and>
    pe_id p \<noteq> 0"
  then have d: "delete_photo s photo_id user_id = (s', True)" by simp
  show "faces s' = filter (\<lambda>f. fa_photo_id f \<noteq> photo_id) (faces s)"
    by (rule delete_photo_effect(1)[OF d])
  show "p \<in> set (persons s') \<longleftrightarrow> (\<exists>f \<in> set (faces s'). fa_person_id f = Some (pe_id p))"
    unfolding delete_photo_effect(2)[OF d] using a by auto
next
  assume a: "delete_photos_batch s photo_ids user_id = (s'', n) \<and> q \<in> set (photos s) \<and>
    ph_id q \<in> set photo_ids \<and> ph_user_id q = user_id \<and> fc \<in> set (faces s) \<and>
    fa_photo_id fc = ph_id q \<and> fa_person_id fc = Some (pe_id p) \<and> p \<in> set (persons s) \<and>
    pe_id p \<noteq> 0"
  then have d: "delete_photos_batch s photo_ids user_id = (s'', n)" by simp
  show "faces s'' = filter (\<lambda>f. fa_photo_id f \<notin>
          ph_id ` {q \<in> set (photos s). ph_id q \<in> set photo_ids \<and> ph_user_id q = user_id}) (faces s)"
    by (rule delete_photos_batch_effect(1)[OF d])
  show "p \<in> set (persons s'') \<longleftrightarrow> (\<exists>f \<in> set (faces s''). fa_person_id f = Some (pe_id p))"
    unfolding delete_photos_batch_effect(2)[OF d] using a by auto
qed

lemmas delete_defs = delete_photo_def delete_photos_batch_def get_photo_by_id_def
  linked_person_ids_def map_filter_simps photo_faces_def truthy_id_def delete_photo_row_def
  cleanup_orphans_def cleanup_orphan_def person_get_def person_faces_def

lemma ex_album_delete_photo:
  "delete_photo ex_album 2 1 =
     (\<lparr>photos = [mk_photo 1 1 (Some 10) (Some ''aa''), mk_photo 3 2 (Some 30) (Some ''cc'')],
       faces = [mk_face 1 1 (Some 1) None, mk_face 4 3 None None],
       persons = [mk_person 1 1 ''Ann'']\<rparr>, True)"
  by (simp add: ex_album_def ex_defs delete_defs)

lemma ex_album_delete_batch:
  "delete_photos_batch ex_album [1, 2, 3] 1 =
     (\<lparr>photos = [mk_photo 3 2 (Some 30) (Some ''cc'')],
       faces = [mk_face 4 3 None None],
       persons = []\<rparr>, 2)"
  by (simp add: ex_album_def ex_defs delete_defs)

theorem delete_photo_orphan_cleanup_witness:
  "delete_photo ex_album 2 1 =
     (\<lparr>photos = [mk_photo 1 1 (Some 10) (Some ''aa''), mk_photo 3 2 (Some 30) (Some ''cc'')],
       faces = [mk_face 1 1 (Some 1) None, mk_face 4 3 None None],
       persons = [mk_person 1 1 ''Ann'']\<rparr>, True) \<and>
   mk_person 2 1 ''Bob'' \<in> set (persons ex_album) \<and>
   mk_person 2 1 ''Bob'' \<notin> set (persons (fst (delete_photo ex_album 2 1))) \<and>
   mk_person 1 1 ''Ann'' \<in> set (persons (fst (delete_photo ex_album 2 1))) \<and>
   delete_photos_batch ex_album [1, 2, 3] 1 =
     (\<lparr>photos = [mk_photo 3 2 (Some 30) (Some ''cc'')],
       faces = [mk_face 4 3 None None],
       persons = []\<rparr>, 2) \<and>
   mk_person 1 1 ''Ann'' \<notin> set (persons (fst (delete_photos_batch ex_album [1, 2, 3] 1)))"
proof -
  have mem: "mk_face 3 2 (Some 2) None \<in> set (faces ex_album)"
    "mk_face 2 2 (Some 1) (Some [1, 0]) \<in> set (faces ex_album)"
    "mk_person 2 1 ''Bob'' \<in> set (persons ex_album)"
    "mk_person 1 1 ''Ann'' \<in> set (persons ex_album)"
    "mk_photo 2 1 (Some 20) (Some ''bb'') \<in> set (photos ex_album)"
    by (simp_all add: ex_album_def)
  note single = delete_photo_orphan_cleanup[THEN conjunct1, THEN mp]
  note batch = delete_photo_orphan_cleanup[THEN conjunct2, THEN mp]
  have pre_bob: "delete_photo ex_album 2 1 = (fst (delete_photo ex_album 2 1), True) \<and>
      mk_face 3 2 (Some 2) None \<in> set (faces ex_album) \<and>
      fa_photo_id (mk_face 3 2 (Some 2) None) = 2 \<and>
      fa_person_id (mk_face 3 2 (Some 2) None) = Some (pe_id (mk_person 2 1 ''Bob'')) \<and>
      mk_person 2 1 ''Bob'' \<in> set (persons ex_album) \<and> pe_id (mk_person 2 1 ''Bob'') \<noteq> 0"
    unfolding ex_album_delete_photo using mem by (simp add: ex_defs)
  have bob: "mk_person 2 1 ''Bob'' \<notin> set (persons (fst (delete_photo ex_album 2 1)))"
    using single[OF pre_bob] unfolding ex_album_delete_photo by (simp add: ex_defs)
  have pre_ann: "delete_photo ex_album 2 1 = (fst (delete_photo ex_album 2 1), True) \<and>
      mk_face 2 2 (Some 1) (Some [1, 0]) \<in> set (faces ex_album) \<and>
      fa_photo_id (mk_face 2 2 (Some 1) (Some [1, 0])) = 2 \<and>
      fa_person_id (mk_face 2 2 (Some 1) (Some [1, 0])) = Some (pe_id (mk_person 1 1 ''Ann'')) \<and>
      mk_person 1 1 ''Ann'' \<in> set (persons ex_album) \<and> pe_id (mk_person 1 1 ''Ann'') \<noteq> 0"
    unfolding ex_album_delete_photo using mem by (simp add: ex_defs)
  have ann: "mk_person 1 1 ''Ann'' \<in> set (persons (fst (delete_photo ex_album 2 1)))"
    using single[OF pre_ann] unfolding ex_album_delete_photo by (simp add: ex_defs)
  have pre_batch: "delete_photos_batch ex_album [1, 2, 3] 1 =
        (fst (delete_photos_batch ex_album [1, 2, 3] 1), 2) \<and>
      mk_photo 2 1 (Some 20) (Some ''bb'') \<in> set (photos ex_album) \<and>
      ph_id (mk_photo 2 1 (Some 20) (Some ''bb'')) \<in> set [1, 2, 3] \<and>
      ph_user_id (mk_photo 2 1 (Some 20) (Some ''bb'')) = 1 \<and>
      mk_face 2 2 (Some 1) (Some [1, 0]) \<in> set (faces ex_album) \<and>
      fa_photo_id (mk_face 2 2 (Some 1) (Some [1, 0])) = ph_id (mk_photo 2 1 (Some 20) (Some ''bb'')) \<and>
      fa_person_id (mk_face 2 2 (Some 1) (Some [1, 0])) = Some (pe_id (mk_person 1 1 ''Ann'')) \<and>
      mk_person 1 1 ''Ann'' \<in> set (persons ex_album) \<and> pe_id (mk_person 1 1 ''Ann'') \<noteq> 0"
    unfolding ex_album_delete_batch using mem by (simp add: ex_defs)
  have ann2: "mk_person 1 1 ''Ann'' \<notin> set (persons (fst (delete_photos_batch ex_album [1, 2, 3] 1)))"
    using batch[OF pre_batch] unfolding ex_album_delete_batch by (simp add: ex_defs)
  from bob ann ann2 mem(3) ex_album_delete_photo ex_album_delete_batch show ?thesis
    by blast
qed

subsection \<open>Duplicate groups\<close>

lemma count_list_map_filter:
  "count_list (List.map_filter f xs) y = length (filter (\<lambda>x. f x = Some y) xs)"
  by (induction xs) (auto simp: map_filter_simps split: option.splits)

lemma count_list_pos_iff: "0 < count_list xs x \<longleftrightarrow> x \<in> set xs"
  by (induction xs) auto

lemma duplicate_hashes_iff:
  "h \<in> set (duplicate_hashes s user_id) \<longleftrightarrow>
     2 \<le> length (filter (\<lambda>p. ph_user_id p = user_id \<and> ph_file_hash p = Some h) (photos s))"
proof -
  let ?hs = "List.map_filter ph_file_hash
                 (filter (\<lambda>p. ph_user_id p = user_id \<and> ph_file_hash p \<noteq> None) (photos s))"
  have c: "count_list ?hs h =
      length (filter (\<lambda>p. ph_user_id p = user_id \<and> ph_file_hash p = Some h) (photos s))"
    unfolding count_list_map_filter filter_filter
    by (rule arg_cong[where f = length], rule filter_cong) auto
  have "h \<in> set (duplicate_hashes s user_id) \<longleftrightarrow> h \<in> set ?hs \<and> 1 < count_list ?hs h"
    by (simp add: duplicate_hashes_def Let_def)
  also have "\<dots> \<longleftrightarrow> 1 < count_list ?hs h"
    using count_list_pos_iff[of ?hs h] by auto
  finally show ?thesis unfolding c by auto
qed

lemma distinct_duplicate_hashes: "distinct (duplicate_hashes s user_id)"
  by (simp add: duplicate_hashes_def Let_def)

text \<open>
  Claim C3, as amended. The result has one entry for each hash shared by two or more of
  the user's photos and no other entry, and the entry of a hash lists all of the user's
  photos with that hash, in the order in which the store enumerates them.
\<close>

theorem get_all_duplicates_groups:
  "distinct (map fst (get_all_duplicates s user_id)) \<and>
   (\<forall>h. h \<in> fst ` set (get_all_duplicates s user_id) \<longleftrightarrow>
      2 \<le> length (filter (\<lambda>p. ph_user_id p = user_id \<and> ph_file_hash p = Some h) (photos s))) \<and>
   (\<forall>h g. (h, g) \<in> set (get_all_duplicates s user_id) \<longrightarrow>
      g = map (photo_to_dict s)
            (filter (\<lambda>p. ph_user_id p = user_id \<and> ph_file_hash p = Some h) (photos s)))"
proof -
  have m: "map fst (get_all_duplicates s user_id) = duplicate_hashes s user_id"
    by (simp add: get_all_duplicates_def comp_def)
  have "fst ` set (get_all_duplicates s user_id) = set (duplicate_hashes s user_id)"
    using m by (metis set_map)
  then show ?thesis
    using distinct_duplicate_hashes[of s user_id] duplicate_hashes_iff[of _ s user_id]
    by (auto simp: m) (auto simp: get_all_duplicates_def)
qed

lemmas duplicate_defs = get_all_duplicates_def duplicate_hashes_def map_filter_simps
  photo_to_dict_def photo_faces_def

lemma ex_dups_groups:
  "map (\<lambda>(h, g). (h, map (\<lambda>d. (phd_id d, phd_uploaded_at d)) g)) (get_all_duplicates ex_dups 1) =
     [(''aa'', [(1, Some 10), (4, Some 5)]), (''cc'', [(3, Some 30), (5, Some 50), (6, Some 25)])]"
  by (simp add: ex_dups_def ex_defs duplicate_defs)

theorem get_all_duplicates_groups_witness:
  "map (\<lambda>(h, g). (h, map (\<lambda>d. (phd_id d, phd_uploaded_at d)) g)) (get_all_duplicates ex_dups 1) =
     [(''aa'', [(1, Some 10), (4, Some 5)]), (''cc'', [(3, Some 30), (5, Some 50), (6, Some 25)])] \<and>
   ''cc'' \<in> fst ` set (get_all_duplicates ex_dups 1) \<and>
   ''bb'' \<notin> fst ` set (get_all_duplicates ex_dups 1) \<and>
   distinct (map fst (get_all_duplicates ex_dups 1))"
proof -
  have cc: "2 \<le> length (filter (\<lambda>p. ph_user_id p = 1 \<and> ph_file_hash p = Some ''cc'') (photos ex_dups))"
    and bb: "\<not> 2 \<le> length (filter (\<lambda>p. ph_user_id p = 1 \<and> ph_file_hash p = Some ''bb'') (photos ex_dups))"
    by (simp_all add: ex_dups_def ex_defs)
  from get_all_duplicates_groups[of ex_dups 1] cc bb ex_dups_groups show ?thesis by blast
qed

text \<open>
  In a store that enumerates a later upload before an earlier one with the same hash, the
  group of that hash is returned in that order, not by ascending upload time.
\<close>

theorem get_all_duplicates_order_counterexample:
  "map (\<lambda>(h, g). (h, map (\<lambda>d. (phd_id d, phd_uploaded_at d)) g)) (get_all_duplicates ex_unordered 1) =
     [(''aa'', [(1, Some 20), (2, Some 10)])] \<and>
   \<not> sorted [20, 10 :: nat]"
  by (simp add: ex_unordered_def ex_defs duplicate_defs)

subsection \<open>Staging duplicates for deletion\<close>

lemma stage_groups_timestamps:
  "(\<And>h g d. (h, g) \<in> set gs \<Longrightarrow> d \<in> set g \<Longrightarrow> phd_uploaded_at d \<noteq> None) \<Longrightarrow>
     stage_groups gs acc =
       Inr (acc @ concat (map (\<lambda>(h, g). map phd_id (tl (sort_key uploaded_key g))) gs))"
proof (induction gs arbitrary: acc)
  case Nil
  show ?case by simp
next
  case (Cons hg gs)
  obtain h g where hg: "hg = (h, g)" by (cases hg)
  have "\<forall>d \<in> set g. phd_uploaded_at d \<noteq> None" using Cons.prems[of h g] by (simp add: hg)
  then have srt: "sorted_by_uploaded_at g = Inr (sort_key uploaded_key g)"
    by (auto simp: sorted_by_uploaded_at_def)
  have "stage_groups gs (acc @ map phd_id (tl (sort_key uploaded_key g))) =
      Inr ((acc @ map phd_id (tl (sort_key uploaded_key g))) @
           concat (map (\<lambda>(h, g). map phd_id (tl (sort_key uploaded_key g))) gs))"
    by (rule Cons.IH) (use Cons.prems in auto)
  then show ?case by (simp add: hg srt)
qed

lemma sort_key_Nil_iff: "sort_key k g = [] \<longleftrightarrow> g = []"
  by (metis length_0_conv length_sort)

lemma staged_and_kept:
  "(\<And>h g. (h, g) \<in> set gs \<Longrightarrow> g \<noteq> []) \<Longrightarrow>
     mset (concat (map (\<lambda>(h, g). map phd_id (tl (sort_key k g))) gs)) +
       mset (map phd_id (map (\<lambda>(h, g). hd (sort_key k g)) gs)) =
     mset (map phd_id (concat (map snd gs)))"
proof (induction gs)
  case Nil
  show ?case by simp
next
  case (Cons hg gs)
  obtain h g where hg: "hg = (h, g)" by (cases hg)
  from Cons.prems[of h g] have ne: "sort_key k g \<noteq> []" by (auto simp: hg sort_key_Nil_iff)
  then have "mset (map phd_id (tl (sort_key k g))) + {#phd_id (hd (sort_key k g))#}
      = mset (map phd_id (sort_key k g))"
    by (cases "sort_key k g") auto
  also have "\<dots> = mset (map phd_id g)"
    by (metis mset_map mset_sort)
  finally have one: "mset (map phd_id (tl (sort_key k g))) + {#phd_id (hd (sort_key k g))#}
      = mset (map phd_id g)" .
  have rest: "mset (concat (map (\<lambda>(h, g). map phd_id (tl (sort_key k g))) gs)) +
       mset (map phd_id (map (\<lambda>(h, g). hd (sort_key k g)) gs)) =
     mset (map phd_id (concat (map snd gs)))"
    by (rule Cons.IH) (use Cons.prems in auto)
  show ?case
    using one rest by (simp add: hg ac_simps)
qed

lemma staged_length:
  "length (concat (map (\<lambda>(h, g). map phd_id (tl (sort_key k g))) gs)) =
     (\<Sum>(h, g) \<leftarrow> gs. length g - 1)"
  by (induction gs) (auto simp: case_prod_beta)

lemma hd_sort_key_least:
  assumes "g \<noteq> []"
  shows "hd (sort_key k g) \<in> set g" and "\<forall>d \<in> set g. k (hd (sort_key k g)) \<le> k d"
proof -
  from assms obtain x xs where e: "sort_key k g = x # xs"
    by (cases "sort_key k g") (auto simp: sort_key_Nil_iff)
  have "set (sort_key k g) = set g" by simp
  with e show "hd (sort_key k g) \<in> set g" by auto
  have "sorted (map k (sort_key k g))" by (rule sorted_sort_key)
  with e have "\<forall>d \<in> set (x # xs). k x \<le> k d" by auto
  with e \<open>set (sort_key k g) = set g\<close> show "\<forall>d \<in> set g. k (hd (sort_key k g)) \<le> k d"
    by simp
qed

text \<open>
  Claim C9. When every photo of the user carries an upload time, the duplicate-deletion
  action leaves the store as it is. With no duplicate group it answers with a message;
  otherwise it stages, for every group, all members but one that has the earliest upload
  time of the group: the staged ids together with the ids of the kept members are exactly
  the ids of all group members, and their number is the sum of the group sizes less one
  each.
\<close>

theorem action_delete_duplicates_stages:
  "(\<forall>p \<in> set (photos s). ph_user_id p = user_id \<longrightarrow> ph_uploaded_at p \<noteq> None) \<longrightarrow>
     fst (action_delete_duplicates s user_id) = s \<and>
     (get_all_duplicates s user_id = [] \<longrightarrow>
        snd (action_delete_duplicates s user_id) = Inr (Info ''No duplicate photos to delete.'')) \<and>
     (get_all_duplicates s user_id \<noteq> [] \<longrightarrow>
        (\<exists>ids kept.
           snd (action_delete_duplicates s user_id) =
             Inr (Delete_confirmation ids (length ids) (length (get_all_duplicates s user_id))) \<and>
           length kept = length (get_all_duplicates s user_id) \<and>
           (\<forall>i < length kept.
              kept ! i \<in> set (snd (get_all_duplicates s user_id ! i)) \<and>
              (\<exists>t. phd_uploaded_at (kept ! i) = Some t \<and>
                 (\<forall>d \<in> set (snd (get_all_duplicates s user_id ! i)).
                    \<exists>t'. phd_uploaded_at d = Some t' \<and> t \<le> t'))) \<and>
           mset ids + mset (map phd_id kept) =
             mset (map phd_id (concat (map snd (get_all_duplicates s user_id)))) \<and>
           length ids = (\<Sum>(h, g) \<leftarrow> get_all_duplicates s user_id. length g - 1)))"
proof (intro impI conjI)
  show "fst (action_delete_duplicates s user_id) = s"
    by (simp add: action_delete_duplicates_def Let_def split: sum.splits)
next
  assume "get_all_duplicates s user_id = []"
  then show "snd (action_delete_duplicates s user_id) = Inr (Info ''No duplicate photos to delete.'')"
    by (simp add: action_delete_duplicates_def)
next
  assume ts: "\<forall>p \<in> set (photos s). ph_user_id p = user_id \<longrightarrow> ph_uploaded_at p \<noteq> None"
    and ne: "get_all_duplicates s user_id \<noteq> []"
  let ?gs = "get_all_duplicates s user_id"
  let ?ids = "concat (map (\<lambda>(h, g). map phd_id (tl (sort_key uploaded_key g))) ?gs)"
  let ?kept = "map (\<lambda>(h, g). hd (sort_key uploaded_key g)) ?gs"
  have grp: "g = map (photo_to_dict s)
            (filter (\<lambda>p. ph_user_id p = user_id \<and> ph_file_hash p = Some h) (photos s))"
    if "(h, g) \<in> set ?gs" for h g
    using that by (auto simp: get_all_duplicates_def)
  have stamp: "phd_uploaded_at d \<noteq> None" if "(h, g) \<in> set ?gs" "d \<in> set g" for h g d
    using that(2) ts unfolding grp[OF that(1)] by (auto simp: photo_to_dict_def)
  have nonempty: "g \<noteq> []" if "(h, g) \<in> set ?gs" for h g
  proof -
    from that have "h \<in> set (duplicate_hashes s user_id)"
      by (auto simp: get_all_duplicates_def)
    then have "2 \<le> length (filter (\<lambda>p. ph_user_id p = user_id \<and> ph_file_hash p = Some h) (photos s))"
      by (simp add: duplicate_hashes_iff)
    then show ?thesis unfolding grp[OF that] by auto
  qed
  have st: "stage_groups ?gs [] = Inr ?ids"
    using stage_groups_timestamps[of ?gs "[]"] stamp by auto
  have res: "snd (action_delete_duplicates s user_id) =
      Inr (Delete_confirmation ?ids (length ?ids) (length ?gs))"
    using ne by (simp add: action_delete_duplicates_def Let_def st)
  have kept: "kept_i \<in> set g \<and>
      (\<exists>t. phd_uploaded_at kept_i = Some t \<and>
         (\<forall>d \<in> set g. \<exists>t'. phd_uploaded_at d = Some t' \<and> t \<le> t'))"
    if i: "i < length ?kept" and g: "g = snd (?gs ! i)" and k: "kept_i = ?kept ! i" for i g kept_i
  proof -
    from i have mem: "(fst (?gs ! i), g) \<in> set ?gs" by (simp add: g)
    have ki: "kept_i = hd (sort_key uploaded_key g)"
      using i by (simp add: k g case_prod_beta)
    from nonempty[OF mem] have in_g: "kept_i \<in> set g"
      and least: "\<forall>d \<in> set g. uploaded_key kept_i \<le> uploaded_key d"
      unfolding ki by (rule hd_sort_key_least)+
    from stamp[OF mem in_g] obtain t where t: "phd_uploaded_at kept_i = Some t" by auto
    have "\<exists>t'. phd_uploaded_at d = Some t' \<and> t \<le> t'" if "d \<in> set g" for d
    proof -
      from stamp[OF mem that] obtain t' where t': "phd_uploaded_at d = Some t'" by auto
      with least that t show ?thesis by (auto simp: uploaded_key_def)
    qed
    with in_g t show ?thesis by blast
  qed
  have ms: "mset ?ids + mset (map phd_id ?kept) = mset (map phd_id (concat (map snd ?gs)))"
    by (rule staged_and_kept) (rule nonempty)
  have len: "length ?ids = (\<Sum>(h, g) \<leftarrow> ?gs. length g - 1)"
    by (rule staged_length)
  show "\<exists>ids kept.
           snd (action_delete_duplicates s user_id) =
             Inr (Delete_confirmation ids (length ids) (length ?gs)) \<and>
           length kept = length ?gs \<and>
           (\<forall>i < length kept.
              kept ! i \<in> set (snd (?gs ! i)) \<and>
              (\<exists>t. phd_uploaded_at (kept ! i) = Some t \<and>
                 (\<forall>d \<in> set (snd (?gs ! i)).
                    \<exists>t'. phd_uploaded_at d = Some t' \<and> t \<le> t'))) \<and>
           mset ids + mset (map phd_id kept) = mset (map phd_id (concat (map snd ?gs))) \<and>
           length ids = (\<Sum>(h, g) \<leftarrow> ?gs. length g - 1)"
  proof (intro exI[of _ ?ids] exI[of _ ?kept] conjI allI impI)
    show "snd (action_delete_duplicates s user_id) =
      Inr (Delete_confirmation ?ids (length ?ids) (length ?gs))" by (rule res)
    show "length ?kept = length ?gs" by simp
    show "mset ?ids + mset (map phd_id ?kept) = mset (map phd_id (concat (map snd ?gs)))"
      by (rule ms)
    show "length ?ids = (\<Sum>(h, g) \<leftarrow> ?gs. length g - 1)" by (rule len)
  next
    fix i assume "i < length ?kept"
    from kept[OF this refl refl]
    show "?kept ! i \<in> set (snd (?gs ! i))"
      and "\<exists>t. phd_uploaded_at (?kept ! i) = Some t \<and>
                 (\<forall>d \<in> set (snd (?gs ! i)). \<exists>t'. phd_uploaded_at d = Some t' \<and> t \<le> t')"
      by blast+
  qed
qed

lemma ex_dups_action:
  "action_delete_duplicates ex_dups 1 = (ex_dups, Inr (Delete_confirmation [1, 3, 5] 3 2))"
  by (simp add: action_delete_duplicates_def Let_def sorted_by_uploaded_at_def uploaded_key_def
      ex_dups_def ex_defs duplicate_defs)

theorem action_delete_duplicates_stages_witness:
  "action_delete_duplicates ex_dups 1 = (ex_dups, Inr (Delete_confirmation [1, 3, 5] 3 2)) \<and>
   map (\<lambda>(h, g). (h, map (\<lambda>d. (phd_id d, phd_uploaded_at d)) g)) (get_all_duplicates ex_dups 1) =
     [(''aa'', [(1, Some 10), (4, Some 5)]), (''cc'', [(3, Some 30), (5, Some 50), (6, Some 25)])] \<and>
   (\<Sum>(h, g) \<leftarrow> get_all_duplicates ex_dups 1. length g - 1) = 3"
proof -
  have hyp: "\<forall>p \<in> set (photos ex_dups). ph_user_id p = 1 \<longrightarrow> ph_uploaded_at p \<noteq> None"
    by (simp add: ex_dups_def ex_defs)
  have ne: "get_all_duplicates ex_dups 1 \<noteq> []"
    using ex_dups_groups by auto
  from action_delete_duplicates_stages[THEN mp, OF hyp] ne
  obtain ids where r: "snd (action_delete_duplicates ex_dups 1) =
        Inr (Delete_confirmation ids (length ids) (length (get_all_duplicates ex_dups 1)))"
    and l: "length ids = (\<Sum>(h, g) \<leftarrow> get_all_duplicates ex_dups 1. length g - 1)"
    by blast
  from r have "ids = [1, 3, 5]" unfolding ex_dups_action by simp
  with l have "(\<Sum>(h, g) \<leftarrow> get_all_duplicates ex_dups 1. length g - 1) = 3" by simp
  with ex_dups_action ex_dups_groups show ?thesis by blast
qed

subsection \<open>Primary keys and row updates\<close>

lemma fold_max_bounds: "a \<le> fold max xs a \<and> (\<forall>x \<in> set xs. x \<le> fold max xs (a::nat))"
proof (induction xs arbitrary: a)
  case Nil
  show ?case by simp
next
  case (Cons y ys)
  from Cons.IH[of "max y a"] show ?case by auto
qed

lemma next_id_fresh: "x \<in> set ids \<Longrightarrow> x < next_id ids"
  using fold_max_bounds[of 0 ids] by (auto simp: next_id_def)

lemma next_id_not_in: "next_id ids \<notin> set ids"
  using next_id_fresh[of "next_id ids" ids] by auto

lemma face_get_Some: "face_get s i = Some f \<Longrightarrow> f \<in> set (faces s) \<and> fa_id f = i"
  by (auto simp: face_get_def find_Some_iff)

lemma face_get_None_iff: "face_get s i = None \<longleftrightarrow> i \<notin> fa_id ` set (faces s)"
  by (auto simp: face_get_def find_None_iff)

lemma find_distinct_key:
  "distinct (map k xs) \<Longrightarrow> x \<in> set xs \<Longrightarrow> find (\<lambda>y. k y = k x) xs = Some x"
  by (induction xs) auto

lemma find_append_Some: "find P xs = Some x \<Longrightarrow> find P (xs @ ys) = Some x"
  by (induction xs) auto

lemma find_append_fresh: "\<forall>y \<in> set xs. \<not> P y \<Longrightarrow> find P (xs @ ys) = find P ys"
  by (induction xs) auto

lemma find_relinked:
  "find (\<lambda>f. fa_id f = i) (map (\<lambda>f. if fa_id f = j then f\<lparr>fa_person_id := v\<rparr> else f) xs) =
      (if i = j then map_option (\<lambda>f. f\<lparr>fa_person_id := v\<rparr>) (find (\<lambda>f. fa_id f = i) xs)
       else find (\<lambda>f. fa_id f = i) xs)"
  by (induction xs) auto

lemma find_embedded:
  "find (\<lambda>f. fa_id f = i)
          (map (\<lambda>f. if fa_id f = j then f\<lparr>fa_embedding := Some e, fa_embedding_model := Some m\<rparr> else f) xs) =
      (if i = j then map_option (\<lambda>f. f\<lparr>fa_embedding := Some e, fa_embedding_model := Some m\<rparr>)
                       (find (\<lambda>f. fa_id f = i) xs)
       else find (\<lambda>f. fa_id f = i) xs)"
  by (induction xs) auto

lemma face_get_set_face_person:
  "face_get (set_face_person s j v) i =
     (if i = j then map_option (\<lambda>f. f\<lparr>fa_person_id := v\<rparr>) (face_get s i) else face_get s i)"
  by (simp add: face_get_def set_face_person_def find_relinked split del: if_split)
    (simp add: face_get_def)

lemma face_get_store_embedding:
  "face_get (store_embedding s j e m) i =
     (if i = j then map_option (\<lambda>f. f\<lparr>fa_embedding := Some e, fa_embedding_model := Some m\<rparr>) (face_get s i)
      else face_get s i)"
  by (simp add: face_get_def store_embedding_def find_embedded split del: if_split)
    (simp add: face_get_def)

lemma set_face_person_frame [simp]:
  "persons (set_face_person s j v) = persons s" "photos (set_face_person s j v) = photos s"
  "map fa_id (faces (set_face_person s j v)) = map fa_id (faces s)"
  by (simp_all add: set_face_person_def comp_def)

lemma store_embedding_frame [simp]:
  "persons (store_embedding s j e m) = persons s" "photos (store_embedding s j e m) = photos s"
  "map fa_id (faces (store_embedding s j e m)) = map fa_id (faces s)"
  by (simp_all add: store_embedding_def comp_def)

lemma face_get_cong: "faces s' = faces s \<Longrightarrow> face_get s' i = face_get s i"
  by (simp add: face_get_def)

lemma face_exists_iff: "face_get s i \<noteq> None \<longleftrightarrow> i \<in> set (map fa_id (faces s))"
  by (auto simp: face_get_None_iff)

lemma assign_face_to_person_shape:
  assumes "face_get s fid = Some fc"
  shows "\<exists>p extra.
     fst (assign_face_to_person s now fid name uid) =
       set_face_person (s\<lparr>persons := persons s @ extra\<rparr>) fid (Some (pe_id p)) \<and>
     find (\<lambda>q. pe_name q = name \<and> pe_user_id q = uid) (persons s @ extra) = Some p"
proof (cases "find (\<lambda>q. pe_name q = name \<and> pe_user_id q = uid) (persons s)")
  case None
  let ?np = "new_person s now uid name"
  have "find (\<lambda>q. pe_name q = name \<and> pe_user_id q = uid) (persons s @ [?np]) = Some ?np"
    using None by (simp add: find_append_fresh find_None_iff new_person_def)
  moreover have "fst (assign_face_to_person s now fid name uid) =
       set_face_person (s\<lparr>persons := persons s @ [?np]\<rparr>) fid (Some (pe_id ?np))"
    using assms None by (simp add: assign_face_to_person_def Let_def)
  ultimately show ?thesis by blast
next
  case (Some p)
  then have "fst (assign_face_to_person s now fid name uid) =
       set_face_person (s\<lparr>persons := persons s @ []\<rparr>) fid (Some (pe_id p))"
    using assms by (simp add: assign_face_to_person_def)
  with Some show ?thesis
    by (intro exI[of _ p] exI[of _ "[]"]) simp
qed

lemma assign_face_to_person_missing:
  "face_get s fid = None \<Longrightarrow> fst (assign_face_to_person s now fid name uid) = s"
  by (simp add: assign_face_to_person_def)

lemma assign_establishes_link:
  assumes "face_get s fid \<noteq> None"
  shows "linked_to_name (fst (assign_face_to_person s now fid name uid)) fid name uid"
proof -
  from assms obtain fc where fc: "face_get s fid = Some fc" by auto
  from assign_face_to_person_shape[OF fc, of now name uid] obtain p extra where
    s': "fst (assign_face_to_person s now fid name uid) =
       set_face_person (s\<lparr>persons := persons s @ extra\<rparr>) fid (Some (pe_id p))"
    and f: "find (\<lambda>q. pe_name q = name \<and> pe_user_id q = uid) (persons s @ extra) = Some p"
    by blast
  have "face_get (s\<lparr>persons := persons s @ extra\<rparr>) fid = Some fc"
    using fc by (simp add: face_get_def)
  then show ?thesis
    unfolding s' linked_to_name_def by (simp add: face_get_set_face_person f)
qed

lemma assign_keeps_faces:
  "map fa_id (faces (fst (assign_face_to_person s now fid name uid))) = map fa_id (faces s)"
proof (cases "face_get s fid")
  case None
  then show ?thesis by (simp add: assign_face_to_person_missing)
next
  case (Some fc)
  from assign_face_to_person_shape[OF Some, of now name uid] show ?thesis by auto
qed

lemma assign_keeps_other_links:
  assumes "linked_to_name s fid' name' uid'" and "fid' \<noteq> fid"
  shows "linked_to_name (fst (assign_face_to_person s now fid name uid)) fid' name' uid'"
proof (cases "face_get s fid")
  case None
  with assms show ?thesis by (simp add: assign_face_to_person_missing)
next
  case (Some fc)
  from assign_face_to_person_shape[OF Some, of now name uid] obtain p extra where
    s': "fst (assign_face_to_person s now fid name uid) =
       set_face_person (s\<lparr>persons := persons s @ extra\<rparr>) fid (Some (pe_id p))"
    and f: "find (\<lambda>q. pe_name q = name \<and> pe_user_id q = uid) (persons s @ extra) = Some p"
    by blast
  from assms(1) obtain fc' p' where
    a: "face_get s fid' = Some fc'"
      "find (\<lambda>q. pe_name q = name' \<and> pe_user_id q = uid') (persons s) = Some p'"
      "fa_person_id fc' = Some (pe_id p')"
    by (auto simp: linked_to_name_def split: option.splits)
  have "face_get (s\<lparr>persons := persons s @ extra\<rparr>) fid' = Some fc'"
    using a(1) by (simp add: face_get_def)
  then show ?thesis
    unfolding s' linked_to_name_def
    using assms(2) a by (simp add: face_get_set_face_person find_append_Some)
qed

subsection \<open>Manual assignment during upload\<close>

lemma assign_names_keeps_faces:
  "map fa_id (faces (assign_names now uid fs names s)) = map fa_id (faces s)"
  by (induction now uid fs names s rule: assign_names.induct)
    (simp_all add: Let_def assign_keeps_faces)

lemma assign_names_keeps_links:
  "linked_to_name s fid name uid' \<Longrightarrow> fid \<notin> fa_id ` set fs \<Longrightarrow>
     linked_to_name (assign_names now uid fs names s) fid name uid'"
  by (induction now uid fs names s rule: assign_names.induct)
    (auto simp: Let_def assign_keeps_other_links)

lemma assign_names_links:
  "distinct (map fa_id fs) \<Longrightarrow> \<forall>f \<in> set fs. face_get s (fa_id f) \<noteq> None \<Longrightarrow>
   i < length fs \<Longrightarrow> i < length names \<Longrightarrow> names ! i = Some nm \<Longrightarrow> strip nm \<noteq> [] \<Longrightarrow>
     linked_to_name (assign_names now uid fs names s) (fa_id (fs ! i)) (strip nm) uid"
proof (induction now uid fs names s arbitrary: i rule: assign_names.induct)
  case (1 now uid names s)
  then show ?case by simp
next
  case (2 now uid fc rest s)
  then show ?case by simp
next
  case (3 now uid fc rest entry names s)
  let ?raw = "case entry of None \<Rightarrow> [] | Some n \<Rightarrow> n"
  let ?s1 = "fst (assign_face_to_person s now (fa_id fc) (strip ?raw) uid)"
  have ex: "face_get s (fa_id fc) \<noteq> None" using "3.prems"(2) by simp
  have d: "distinct (map fa_id rest)" and fresh: "fa_id fc \<notin> fa_id ` set rest"
    using "3.prems"(1) by auto
  have keep: "\<forall>f \<in> set rest. face_get s' (fa_id f) \<noteq> None"
    if "map fa_id (faces s') = map fa_id (faces s)" for s'
    using "3.prems"(2) that unfolding face_exists_iff by simp
  show ?case
  proof (cases i)
    case 0
    with "3.prems" have e: "entry = Some nm" and ne: "strip nm \<noteq> []" by auto
    have "linked_to_name ?s1 (fa_id fc) (strip nm) uid"
      using assign_establishes_link[OF ex] by (simp add: e)
    then have "linked_to_name (assign_names now uid rest names ?s1) (fa_id fc) (strip nm) uid"
      using fresh by (rule assign_names_keeps_links)
    with 0 e ne show ?thesis by simp
  next
    case (Suc j)
    with "3.prems" have j: "j < length rest" "j < length names" "names ! j = Some nm" by auto
    show ?thesis
    proof (cases "strip ?raw \<noteq> []")
      case True
      have "linked_to_name (assign_names now uid rest names ?s1) (fa_id (rest ! j)) (strip nm) uid"
        by (rule "3.IH"(1)[OF refl True d keep[OF assign_keeps_faces] j "3.prems"(6)])
      with True Suc show ?thesis by (simp add: Let_def)
    next
      case False
      have "linked_to_name (assign_names now uid rest names s) (fa_id (rest ! j)) (strip nm) uid"
        by (rule "3.IH"(2)[OF refl False d keep[OF refl] j "3.prems"(6)])
      with False Suc show ?thesis by (simp add: Let_def)
    qed
  qed
qed

subsection \<open>Saving detected faces and extracting embeddings\<close>

lemma save_faces_loop_effect:
  "save_faces_loop photo_id dets s saved = (s', saved') \<Longrightarrow>
     photos s' = photos s \<and> persons s' = persons s \<and>
     (\<exists>new. faces s' = faces s @ new \<and> saved' = saved @ new \<and> length new = length dets \<and>
        distinct (map fa_id new) \<and>
        (\<forall>f \<in> set new. fa_id f \<notin> fa_id ` set (faces s) \<and> fa_person_id f = None \<and>
            fa_photo_id f = photo_id) \<and>
        (\<forall>i < length dets. fa_x (new ! i) = det_x (dets ! i) \<and> fa_y (new ! i) = det_y (dets ! i) \<and>
            fa_width (new ! i) = det_width (dets ! i) \<and> fa_height (new ! i) = det_height (dets ! i)))"
proof (induction dets arbitrary: s saved)
  case Nil
  then show ?case by simp
next
  case (Cons fd rest)
  let ?fc = "new_face s photo_id fd"
  let ?s1 = "s\<lparr>faces := faces s @ [?fc]\<rparr>"
  from Cons.prems have "save_faces_loop photo_id rest ?s1 (saved @ [?fc]) = (s', saved')"
    by (simp add: Let_def)
  from Cons.IH[OF this] obtain new where
    a: "photos s' = photos s" "persons s' = persons s"
    and n: "faces s' = (faces s @ [?fc]) @ new" "saved' = (saved @ [?fc]) @ new"
      "length new = length rest" "distinct (map fa_id new)"
    and f: "\<forall>f \<in> set new. fa_id f \<notin> fa_id ` set (faces s @ [?fc]) \<and> fa_person_id f = None \<and>
            fa_photo_id f = photo_id"
    and b: "\<forall>i < length rest. fa_x (new ! i) = det_x (rest ! i) \<and> fa_y (new ! i) = det_y (rest ! i) \<and>
            fa_width (new ! i) = det_width (rest ! i) \<and> fa_height (new ! i) = det_height (rest ! i)"
    by auto
  have fresh: "fa_id ?fc \<notin> fa_id ` set (faces s)"
    using next_id_not_in[of "map fa_id (faces s)"] by (simp add: new_face_def)
  have fc: "fa_person_id ?fc = None" "fa_photo_id ?fc = photo_id"
    "fa_x ?fc = det_x fd" "fa_y ?fc = det_y fd" "fa_width ?fc = det_width fd"
    "fa_height ?fc = det_height fd"
    by (simp_all add: new_face_def)
  have box: "\<forall>i < length (fd # rest).
      fa_x ((?fc # new) ! i) = det_x ((fd # rest) ! i) \<and> fa_y ((?fc # new) ! i) = det_y ((fd # rest) ! i) \<and>
      fa_width ((?fc # new) ! i) = det_width ((fd # rest) ! i) \<and>
      fa_height ((?fc # new) ! i) = det_height ((fd # rest) ! i)"
  proof (intro allI impI)
    fix i assume "i < length (fd # rest)"
    then show "fa_x ((?fc # new) ! i) = det_x ((fd # rest) ! i) \<and> fa_y ((?fc # new) ! i) = det_y ((fd # rest) ! i) \<and>
      fa_width ((?fc # new) ! i) = det_width ((fd # rest) ! i) \<and>
      fa_height ((?fc # new) ! i) = det_height ((fd # rest) ! i)"
      using b fc by (cases i) auto
  qed
  have "faces s' = faces s @ (?fc # new) \<and> saved' = saved @ (?fc # new) \<and>
      length (?fc # new) = length (fd # rest) \<and> distinct (map fa_id (?fc # new)) \<and>
      (\<forall>f \<in> set (?fc # new). fa_id f \<notin> fa_id ` set (faces s) \<and> fa_person_id f = None \<and>
            fa_photo_id f = photo_id)"
    using n f fresh fc by auto
  with a box show ?case by blast
qed

lemma embeddings_loop_frame:
  "embeddings_loop extr uid mdl ids s n = (s', r) \<Longrightarrow>
     photos s' = photos s \<and> persons s' = persons s \<and>
     map fa_id (faces s') = map fa_id (faces s)"
proof (induction extr uid mdl ids s n rule: embeddings_loop.induct)
  case (1 extr uid mdl s n)
  then show ?case by simp
next
  case (2 extr uid mdl fid rest s n)
  show ?case
  proof (cases "face_get s fid")
    case None
    with "2.prems" "2.IH"(1) show ?thesis by simp
  next
    case (Some fc)
    note fc = Some
    show ?thesis
    proof (cases "extr (fa_x fc, fa_y fc, fa_width fc, fa_height fc)")
      case None
      with "2.prems" "2.IH"(2)[OF fc] fc show ?thesis by simp
    next
      case (Some emb)
      note em = Some
      let ?s1 = "store_embedding s fid emb mdl"
      show ?thesis
      proof (cases "fa_person_id fc = None")
        case False
        with "2.prems" fc em have "embeddings_loop extr uid mdl rest ?s1 n = (s', r)"
          by (simp add: Let_def)
        from "2.IH"(5)[OF fc em refl False this] show ?thesis by simp
      next
        case True
        show ?thesis
        proof (cases "find_matching_person ?s1 emb uid (6 / 10)")
          case (Inl e)
          with "2.prems" fc em True have "s' = ?s1" by (simp add: Let_def)
          then show ?thesis by simp
        next
          case (Inr m)
          show ?thesis
          proof (cases m)
            case None
            with "2.prems" fc em True Inr
            have "embeddings_loop extr uid mdl rest ?s1 n = (s', r)" by (simp add: Let_def)
            from "2.IH"(3)[OF fc em refl True Inr None this] show ?thesis by simp
          next
            case (Some mp)
            with "2.prems" fc em True Inr
            have "embeddings_loop extr uid mdl rest
                (set_face_person ?s1 fid (Some (pe_id mp))) (n + 1) = (s', r)"
              by (simp add: Let_def)
            from "2.IH"(4)[OF fc em refl True Inr Some this]
            show ?thesis by simp
          qed
        qed
      qed
    qed
  qed
qed

lemma upload_photo_success:
  assumes "upload_photo s now uid fi file_hash dets extr face_names = (s', Inr r)"
    and "dets \<noteq> []"
  obtains s1 photo s2 saved s3 auto_matched where
    "create_photo s now uid fi file_hash = (s1, photo)"
    "save_detected_faces s1 (ph_id photo) dets = (s2, saved)"
    "process_embeddings_for_photo s2 (ph_id photo) extr uid ''facenet'' = (s3, Inr auto_matched)"
    "s' = (if face_names \<noteq> [] then assign_names now uid saved face_names s3 else s3)"
    "r = (photo, length dets, auto_matched)"
proof -
  obtain s1 photo where c: "create_photo s now uid fi file_hash = (s1, photo)"
    by (cases "create_photo s now uid fi file_hash") auto
  obtain s2 saved where sv: "save_detected_faces s1 (ph_id photo) dets = (s2, saved)"
    by (cases "save_detected_faces s1 (ph_id photo) dets") auto
  obtain s3 res where pr: "process_embeddings_for_photo s2 (ph_id photo) extr uid ''facenet'' = (s3, res)"
    by (cases "process_embeddings_for_photo s2 (ph_id photo) extr uid ''facenet''") auto
  from assms c sv pr obtain auto_matched where res: "res = Inr auto_matched"
    by (cases res) (auto simp: upload_photo_def)
  from assms c sv pr res
  have "s' = (if face_names \<noteq> [] then assign_names now uid saved face_names s3 else s3)"
    and "r = (photo, length dets, auto_matched)"
    by (auto simp: upload_photo_def Let_def)
  with c sv pr res that show ?thesis by blast
qed

text \<open>
  Claim C6. When an upload succeeds and the caller supplied, for face position \<open>i\<close>, a
  name that is not empty after stripping, then whatever the extractor and the matcher did
  before, the face saved for the \<open>i\<close>-th detected box ends up linked to the person that
  a lookup of the stripped name in the user's scope finds in the final store.
\<close>

theorem upload_manual_name_wins:
  "upload_photo s now user_id fi file_hash detected extr face_names = (s', Inr r) \<and>
   i < length detected \<and> i < length face_names \<and> face_names ! i = Some nm \<and> strip nm \<noteq> [] \<longrightarrow>
     length (uploaded_faces s now user_id fi file_hash detected) = length detected \<and>
     fa_photo_id (uploaded_faces s now user_id fi file_hash detected ! i) = ph_id (fst r) \<and>
     fa_x (uploaded_faces s now user_id fi file_hash detected ! i) = det_x (detected ! i) \<and>
     fa_y (uploaded_faces s now user_id fi file_hash detected ! i) = det_y (detected ! i) \<and>
     fa_width (uploaded_faces s now user_id fi file_hash detected ! i) = det_width (detected ! i) \<and>
     fa_height (uploaded_faces s now user_id fi file_hash detected ! i) = det_height (detected ! i) \<and>
     (\<exists>fc p. face_get s' (fa_id (uploaded_faces s now user_id fi file_hash detected ! i)) = Some fc \<and>
        find (\<lambda>p. pe_name p = strip nm \<and> pe_user_id p = user_id) (persons s') = Some p \<and>
        fa_person_id fc = Some (pe_id p))"
proof
  assume a: "upload_photo s now user_id fi file_hash detected extr face_names = (s', Inr r) \<and>
   i < length detected \<and> i < length face_names \<and> face_names ! i = Some nm \<and> strip nm \<noteq> []"
  then have up: "upload_photo s now user_id fi file_hash detected extr face_names = (s', Inr r)"
    and i: "i < length detected" "i < length face_names" "face_names ! i = Some nm" "strip nm \<noteq> []"
    by auto
  from i have ne: "detected \<noteq> []" "face_names \<noteq> []" by auto
  from up ne(1) obtain s1 photo s2 saved s3 auto_matched where
    c: "create_photo s now user_id fi file_hash = (s1, photo)"
    and sv: "save_detected_faces s1 (ph_id photo) detected = (s2, saved)"
    and pr: "process_embeddings_for_photo s2 (ph_id photo) extr user_id ''facenet'' = (s3, Inr auto_matched)"
    and s': "s' = (if face_names \<noteq> [] then assign_names now user_id saved face_names s3 else s3)"
    and r: "r = (photo, length detected, auto_matched)"
    by (rule upload_photo_success)
  have uf: "uploaded_faces s now user_id fi file_hash detected = saved"
    by (simp add: uploaded_faces_def c sv)
  from save_faces_loop_effect[OF sv[unfolded save_detected_faces_def]]
  have f2: "faces s2 = faces s1 @ saved" and len: "length saved = length detected"
    and d: "distinct (map fa_id saved)"
    and ph: "\<forall>f \<in> set saved. fa_photo_id f = ph_id photo"
    and box: "\<forall>i < length detected. fa_x (saved ! i) = det_x (detected ! i) \<and>
            fa_y (saved ! i) = det_y (detected ! i) \<and>
            fa_width (saved ! i) = det_width (detected ! i) \<and>
            fa_height (saved ! i) = det_height (detected ! i)"
    by auto
  from embeddings_loop_frame[OF pr[unfolded process_embeddings_for_photo_def]]
  have ids3: "map fa_id (faces s3) = map fa_id (faces s2)" by simp
  have ex3: "\<forall>f \<in> set saved. face_get s3 (fa_id f) \<noteq> None"
    unfolding face_exists_iff ids3 f2 by auto
  have "linked_to_name (assign_names now user_id saved face_names s3) (fa_id (saved ! i)) (strip nm) user_id"
    using d ex3 i(1) i(2) i(3) i(4) unfolding len[symmetric] by (rule assign_names_links)
  then have lk: "linked_to_name s' (fa_id (saved ! i)) (strip nm) user_id"
    using ne(2) by (simp add: s')
  then have "\<exists>fc p. face_get s' (fa_id (saved ! i)) = Some fc \<and>
        find (\<lambda>p. pe_name p = strip nm \<and> pe_user_id p = user_id) (persons s') = Some p \<and>
        fa_person_id fc = Some (pe_id p)"
    by (auto simp: linked_to_name_def split: option.splits)
  moreover have "fa_photo_id (saved ! i) = ph_id (fst r)"
    using ph i(1) len by (simp add: r)
  ultimately show "length (uploaded_faces s now user_id fi file_hash detected) = length detected \<and>
     fa_photo_id (uploaded_faces s now user_id fi file_hash detected ! i) = ph_id (fst r) \<and>
     fa_x (uploaded_faces s now user_id fi file_hash detected ! i) = det_x (detected ! i) \<and>
     fa_y (uploaded_faces s now user_id fi file_hash detected ! i) = det_y (detected ! i) \<and>
     fa_width (uploaded_faces s now user_id fi file_hash detected ! i) = det_width (detected ! i) \<and>
     fa_height (uploaded_faces s now user_id fi file_hash detected ! i) = det_height (detected ! i) \<and>
     (\<exists>fc p. face_get s' (fa_id (uploaded_faces s now user_id fi file_hash detected ! i)) = Some fc \<and>
        find (\<lambda>p. pe_name p = strip nm \<and> pe_user_id p = user_id) (persons s') = Some p \<and>
        fa_person_id fc = Some (pe_id p))"
    unfolding uf using len box i(1) by simp
qed

lemmas upload_defs = upload_photo_def create_photo_def save_detected_faces_def new_face_def
  next_id_def process_embeddings_for_photo_def photo_faces_def face_get_def store_embedding_def
  set_face_person_def assign_face_to_person_def new_person_def strip_def py_isspace_def
  uploaded_faces_def

lemma ex_upload_auto:
  "map_option fa_person_id
     (face_get (fst (upload_photo ex_match 99 1 ex_file ''hh'' [ex_box] ex_extract [])) 4) = Some (Some 1)"
  by (simp add: ex_match_def ex_file_def ex_box_def ex_extract_def ex_defs upload_defs match_defs Let_def)

lemma ex_upload_manual:
  "upload_photo ex_match 99 1 ex_file ''hh'' [ex_box] ex_extract [Some '' Bob ''] =
     (ex_match\<lparr>photos := photos ex_match @
                  [\<lparr>ph_id = 2, ph_user_id = 1, ph_filename = ''b.jpg'', ph_original_filename = ''b.jpg'',
                    ph_filepath = ''/uploads/b.jpg'', ph_mime_type = Some ''image/jpeg'',
                    ph_file_size = Some 2, ph_is_favorite = False, ph_uploaded_at = Some 99,
                    ph_file_hash = Some ''hh''\<rparr>],
                faces := faces ex_match @ [mk_face 4 2 (Some 2) (Some [1, 0])]\<rparr>,
      Inr (\<lparr>ph_id = 2, ph_user_id = 1, ph_filename = ''b.jpg'', ph_original_filename = ''b.jpg'',
             ph_filepath = ''/uploads/b.jpg'', ph_mime_type = Some ''image/jpeg'',
             ph_file_size = Some 2, ph_is_favorite = False, ph_uploaded_at = Some 99,
             ph_file_hash = Some ''hh''\<rparr>, 1, 1))"
  by (simp add: ex_match_def ex_file_def ex_box_def ex_extract_def ex_defs upload_defs match_defs Let_def)

theorem upload_manual_name_wins_witness:
  "snd (upload_photo ex_match 99 1 ex_file ''hh'' [ex_box] ex_extract [Some '' Bob '']) =
     Inr (\<lparr>ph_id = 2, ph_user_id = 1, ph_filename = ''b.jpg'', ph_original_filename = ''b.jpg'',
             ph_filepath = ''/uploads/b.jpg'', ph_mime_type = Some ''image/jpeg'',
             ph_file_size = Some 2, ph_is_favorite = False, ph_uploaded_at = Some 99,
             ph_file_hash = Some ''hh''\<rparr>, 1, 1) \<and>
   map_option fa_person_id
     (face_get (fst (upload_photo ex_match 99 1 ex_file ''hh'' [ex_box] ex_extract [])) 4) = Some (Some 1) \<and>
   strip '' Bob '' = ''Bob'' \<and>
   fa_id (uploaded_faces ex_match 99 1 ex_file ''hh'' [ex_box] ! 0) = 4 \<and>
   (\<exists>fc p. face_get (fst (upload_photo ex_match 99 1 ex_file ''hh'' [ex_box] ex_extract [Some '' Bob ''])) 4 = Some fc \<and>
      find (\<lambda>p. pe_name p = ''Bob'' \<and> pe_user_id p = 1)
        (persons (fst (upload_photo ex_match 99 1 ex_file ''hh'' [ex_box] ex_extract [Some '' Bob '']))) = Some p \<and>
      fa_person_id fc = Some (pe_id p)) \<and>
   map_option fa_person_id
     (face_get (fst (upload_photo ex_match 99 1 ex_file ''hh'' [ex_box] ex_extract [Some '' Bob ''])) 4)
     = Some (Some 2)"
proof -
  let ?up = "upload_photo ex_match 99 1 ex_file ''hh'' [ex_box] ex_extract [Some '' Bob '']"
  have st: "strip '' Bob '' = ''Bob''" by (simp add: strip_def py_isspace_def)
  have id4: "fa_id (uploaded_faces ex_match 99 1 ex_file ''hh'' [ex_box] ! 0) = 4"
    by (simp add: ex_match_def ex_file_def ex_box_def ex_defs upload_defs Let_def)
  have pre: "?up = (fst ?up, Inr (projr (snd ?up))) \<and> 0 < length [ex_box] \<and>
      0 < length [Some '' Bob ''] \<and> [Some '' Bob ''] ! 0 = Some '' Bob '' \<and> strip '' Bob '' \<noteq> []"
    unfolding ex_upload_manual by (simp add: st)
  from upload_manual_name_wins[THEN mp, OF pre]
  have lk: "\<exists>fc p. face_get (fst ?up) 4 = Some fc \<and>
      find (\<lambda>p. pe_name p = ''Bob'' \<and> pe_user_id p = 1) (persons (fst ?up)) = Some p \<and>
      fa_person_id fc = Some (pe_id p)"
    unfolding id4 st by blast
  have res: "snd ?up = Inr (\<lparr>ph_id = 2, ph_user_id = 1, ph_filename = ''b.jpg'', ph_original_filename = ''b.jpg'',
             ph_filepath = ''/uploads/b.jpg'', ph_mime_type = Some ''image/jpeg'',
             ph_file_size = Some 2, ph_is_favorite = False, ph_uploaded_at = Some 99,
             ph_file_hash = Some ''hh''\<rparr>, 1, 1)"
    unfolding ex_upload_manual by simp
  have bob: "map_option fa_person_id (face_get (fst ?up) 4) = Some (Some 2)"
    unfolding ex_upload_manual by (simp add: ex_match_def ex_defs face_get_def)
  from res ex_upload_auto st id4 lk bob show ?thesis by blast
qed

subsection \<open>No person without a face\<close>

lemma anchored_empty: "anchored s {} \<longleftrightarrow> no_orphans s"
  by (simp add: anchored_def no_orphans_def)

lemma anchored_mono: "anchored s F \<Longrightarrow> F' \<subseteq> F \<Longrightarrow> anchored s F'"
  unfolding anchored_def by blast

lemma anchored_no_orphans: "anchored s F \<Longrightarrow> no_orphans s"
  using anchored_mono[of s F "{}"] by (simp add: anchored_empty)

lemma delete_photo_no_orphans:
  assumes "no_orphans s" and "\<forall>p \<in> set (persons s). pe_id p \<noteq> 0"
  shows "no_orphans (fst (delete_photo s photo_id user_id))"
proof (cases "get_photo_by_id s photo_id user_id")
  case None
  with assms(1) show ?thesis by (simp add: delete_photo_def)
next
  case (Some photo)
  then have d: "delete_photo s photo_id user_id = (fst (delete_photo s photo_id user_id), True)"
    by (simp add: delete_photo_def Let_def)
  let ?s' = "fst (delete_photo s photo_id user_id)"
  show ?thesis unfolding no_orphans_def
  proof
    fix p assume p: "p \<in> set (persons ?s')"
    then have ps: "p \<in> set (persons s)"
      and c: "\<not> (pe_id p \<noteq> 0 \<and>
            (\<exists>f \<in> set (faces s). fa_photo_id f = photo_id \<and> fa_person_id f = Some (pe_id p)) \<and>
            \<not> (\<exists>f \<in> set (faces ?s'). fa_person_id f = Some (pe_id p)))"
      unfolding delete_photo_effect(2)[OF d] by auto
    from assms(1) ps obtain f where f: "f \<in> set (faces s)" "fa_person_id f = Some (pe_id p)"
      by (auto simp: no_orphans_def)
    show "\<exists>f \<in> set (faces ?s'). fa_person_id f = Some (pe_id p)"
    proof (cases "fa_photo_id f = photo_id")
      case True
      with c f assms(2) ps show ?thesis by blast
    next
      case False
      with f have "f \<in> set (faces ?s')" unfolding delete_photo_effect(1)[OF d] by simp
      with f(2) show ?thesis by blast
    qed
  qed
qed

lemma delete_photos_batch_no_orphans:
  assumes "no_orphans s" and "\<forall>p \<in> set (persons s). pe_id p \<noteq> 0"
  shows "no_orphans (fst (delete_photos_batch s photo_ids user_id))"
proof -
  let ?s' = "fst (delete_photos_batch s photo_ids user_id)"
  let ?D = "ph_id ` {q \<in> set (photos s). ph_id q \<in> set photo_ids \<and> ph_user_id q = user_id}"
  have d: "delete_photos_batch s photo_ids user_id = (?s', snd (delete_photos_batch s photo_ids user_id))"
    by simp
  show ?thesis unfolding no_orphans_def
  proof
    fix p assume p: "p \<in> set (persons ?s')"
    then have ps: "p \<in> set (persons s)"
      and c: "\<not> (pe_id p \<noteq> 0 \<and>
            (\<exists>f \<in> set (faces s). fa_photo_id f \<in> ?D \<and> fa_person_id f = Some (pe_id p)) \<and>
            \<not> (\<exists>f \<in> set (faces ?s'). fa_person_id f = Some (pe_id p)))"
      unfolding delete_photos_batch_effect(2)[OF d] by auto
    from assms(1) ps obtain f where f: "f \<in> set (faces s)" "fa_person_id f = Some (pe_id p)"
      by (auto simp: no_orphans_def)
    show "\<exists>f \<in> set (faces ?s'). fa_person_id f = Some (pe_id p)"
    proof (cases "fa_photo_id f \<in> ?D")
      case True
      with c f assms(2) ps show ?thesis by blast
    next
      case False
      with f have "f \<in> set (faces ?s')" unfolding delete_photos_batch_effect(1)[OF d] by simp
      with f(2) show ?thesis by blast
    qed
  qed
qed

lemma delete_person_no_orphans:
  assumes "no_orphans s"
  shows "no_orphans (fst (delete_person s person_id user_id))"
proof (cases "find (\<lambda>p. pe_id p = person_id \<and> pe_user_id p = user_id) (persons s)")
  case None
  with assms show ?thesis by (simp add: delete_person_def)
next
  case (Some person)
  then have pid: "pe_id person = person_id" by (auto simp: find_Some_iff)
  show ?thesis unfolding no_orphans_def
  proof
    fix p assume "p \<in> set (persons (fst (delete_person s person_id user_id)))"
    then have ps: "p \<in> set (persons s)" and ne: "pe_id p \<noteq> person_id"
      using Some pid by (auto simp: delete_person_def)
    from assms ps obtain f where f: "f \<in> set (faces s)" "fa_person_id f = Some (pe_id p)"
      by (auto simp: no_orphans_def)
    with ne have "f \<in> set (faces (fst (delete_person s person_id user_id)))"
      using Some by (force simp: delete_person_def)
    with f(2) show "\<exists>f \<in> set (faces (fst (delete_person s person_id user_id))). fa_person_id f = Some (pe_id p)"
      by blast
  qed
qed

lemma anchored_cong:
  assumes "persons s' = persons s"
    and "map (\<lambda>f. (fa_id f, fa_person_id f)) (faces s') = map (\<lambda>f. (fa_id f, fa_person_id f)) (faces s)"
  shows "anchored s' F \<longleftrightarrow> anchored s F"
proof -
  have key: "(\<exists>f \<in> set (faces t). fa_id f \<notin> F \<and> fa_person_id f = Some i) \<longleftrightarrow>
      (\<exists>(j, l) \<in> set (map (\<lambda>f. (fa_id f, fa_person_id f)) (faces t)). j \<notin> F \<and> l = Some i)" for t i
    by auto
  show ?thesis unfolding anchored_def assms(1) key assms(2) ..
qed

lemma store_embedding_anchored: "anchored (store_embedding s j e m) F \<longleftrightarrow> anchored s F"
  by (rule anchored_cong) (simp_all add: store_embedding_def comp_def)

lemma face_get_unique:
  "distinct (map fa_id (faces s)) \<Longrightarrow> face_get s i = Some fc \<Longrightarrow> f \<in> set (faces s) \<Longrightarrow>
     fa_id f = i \<Longrightarrow> f = fc"
  using find_distinct_key[of fa_id "faces s" f] by (simp add: face_get_def)

lemma link_unlinked_anchored:
  assumes "anchored s F" and "distinct (map fa_id (faces s))"
    and "face_get s i = Some fc" and "fa_person_id fc = None"
  shows "anchored (set_face_person s i v) F"
  unfolding anchored_def
proof
  fix p assume "p \<in> set (persons (set_face_person s i v))"
  then have "p \<in> set (persons s)" by simp
  with assms(1) obtain f where f: "f \<in> set (faces s)" "fa_id f \<notin> F" "fa_person_id f = Some (pe_id p)"
    by (auto simp: anchored_def)
  have "fa_id f \<noteq> i"
  proof
    assume "fa_id f = i"
    from face_get_unique[OF assms(2) assms(3) f(1) this] assms(4) f(3) show False by simp
  qed
  with f(1) have "f \<in> set (faces (set_face_person s i v))"
    by (force simp: set_face_person_def)
  with f(2,3) show "\<exists>f \<in> set (faces (set_face_person s i v)). fa_id f \<notin> F \<and> fa_person_id f = Some (pe_id p)"
    by blast
qed

lemma embeddings_loop_anchored:
  "embeddings_loop extr uid mdl ids s n = (s', r) \<Longrightarrow> distinct (map fa_id (faces s)) \<Longrightarrow>
     anchored s F \<Longrightarrow> anchored s' F"
proof (induction extr uid mdl ids s n rule: embeddings_loop.induct)
  case (1 extr uid mdl s n)
  then show ?case by simp
next
  case (2 extr uid mdl fid rest s n)
  show ?case
  proof (cases "face_get s fid")
    case None
    with "2.prems" "2.IH"(1) show ?thesis by simp
  next
    case (Some fc)
    note fc = Some
    show ?thesis
    proof (cases "extr (fa_x fc, fa_y fc, fa_width fc, fa_height fc)")
      case None
      with "2.prems" "2.IH"(2)[OF fc] fc show ?thesis by simp
    next
      case (Some emb)
      note em = Some
      let ?s1 = "store_embedding s fid emb mdl"
      have d1: "distinct (map fa_id (faces ?s1))" using "2.prems"(2) by simp
      have a1: "anchored ?s1 F" using "2.prems"(3) by (simp add: store_embedding_anchored)
      show ?thesis
      proof (cases "fa_person_id fc = None")
        case False
        with "2.prems" fc em have "embeddings_loop extr uid mdl rest ?s1 n = (s', r)"
          by (simp add: Let_def)
        from "2.IH"(5)[OF fc em refl False this d1 a1] show ?thesis .
      next
        case True
        show ?thesis
        proof (cases "find_matching_person ?s1 emb uid (6 / 10)")
          case (Inl e)
          with "2.prems" fc em True have "s' = ?s1" by (simp add: Let_def)
          with a1 show ?thesis by simp
        next
          case (Inr m)
          show ?thesis
          proof (cases m)
            case None
            with "2.prems" fc em True Inr
            have "embeddings_loop extr uid mdl rest ?s1 n = (s', r)" by (simp add: Let_def)
            from "2.IH"(3)[OF fc em refl True Inr None this d1 a1] show ?thesis .
          next
            case (Some mp)
            let ?s2 = "set_face_person ?s1 fid (Some (pe_id mp))"
            from "2.prems" fc em True Inr Some
            have lp: "embeddings_loop extr uid mdl rest ?s2 (n + 1) = (s', r)"
              by (simp add: Let_def)
            have g1: "face_get ?s1 fid = Some (fc\<lparr>fa_embedding := Some emb, fa_embedding_model := Some mdl\<rparr>)"
              by (simp add: face_get_store_embedding fc)
            have a2: "anchored ?s2 F"
              by (rule link_unlinked_anchored[OF a1 d1 g1]) (simp add: True)
            have d2: "distinct (map fa_id (faces ?s2))" using d1 by simp
            from "2.IH"(4)[OF fc em refl True Inr Some lp d2 a2] show ?thesis .
          qed
        qed
      qed
    qed
  qed
qed

lemma assign_face_to_person_shape':
  assumes "face_get s fid = Some fc"
  shows "\<exists>p extra.
     fst (assign_face_to_person s now fid name uid) =
       set_face_person (s\<lparr>persons := persons s @ extra\<rparr>) fid (Some (pe_id p)) \<and>
     set extra \<subseteq> {p}"
proof (cases "find (\<lambda>q. pe_name q = name \<and> pe_user_id q = uid) (persons s)")
  case None
  let ?np = "new_person s now uid name"
  have "fst (assign_face_to_person s now fid name uid) =
       set_face_person (s\<lparr>persons := persons s @ [?np]\<rparr>) fid (Some (pe_id ?np))"
    using assms None by (simp add: assign_face_to_person_def Let_def)
  then show ?thesis by (intro exI[of _ ?np] exI[of _ "[?np]"]) simp
next
  case (Some p)
  then have "fst (assign_face_to_person s now fid name uid) =
       set_face_person (s\<lparr>persons := persons s @ []\<rparr>) fid (Some (pe_id p))"
    using assms by (simp add: assign_face_to_person_def)
  then show ?thesis by (intro exI[of _ p] exI[of _ "[]"]) simp
qed

lemma assign_anchored:
  assumes "anchored s (insert fid F)" and "face_get s fid \<noteq> None" and "fid \<notin> F"
  shows "anchored (fst (assign_face_to_person s now fid name uid)) F"
proof -
  from assms(2) obtain fc where fc: "face_get s fid = Some fc" by auto
  from assign_face_to_person_shape'[OF fc, of now name uid] obtain p extra where
    s': "fst (assign_face_to_person s now fid name uid) =
       set_face_person (s\<lparr>persons := persons s @ extra\<rparr>) fid (Some (pe_id p))"
    and ex: "set extra \<subseteq> {p}"
    by blast
  let ?t = "s\<lparr>persons := persons s @ extra\<rparr>"
  have g: "face_get ?t fid = Some fc" using fc by (simp add: face_get_def)
  show ?thesis unfolding s' anchored_def
  proof
    fix q assume "q \<in> set (persons (set_face_person ?t fid (Some (pe_id p))))"
    then consider "q \<in> set (persons s)" | "q = p" using ex by auto
    then show "\<exists>f \<in> set (faces (set_face_person ?t fid (Some (pe_id p)))).
        fa_id f \<notin> F \<and> fa_person_id f = Some (pe_id q)"
    proof cases
      case 1
      with assms(1) obtain f where f: "f \<in> set (faces s)" "fa_id f \<notin> insert fid F"
        "fa_person_id f = Some (pe_id q)"
        by (auto simp: anchored_def)
      then have "f \<in> set (faces (set_face_person ?t fid (Some (pe_id p))))"
        by (force simp: set_face_person_def)
      with f show ?thesis by blast
    next
      case 2
      have "face_get (set_face_person ?t fid (Some (pe_id p))) fid = Some (fc\<lparr>fa_person_id := Some (pe_id p)\<rparr>)"
        by (simp add: face_get_set_face_person g)
      from face_get_Some[OF this]
      have m: "fc\<lparr>fa_person_id := Some (pe_id p)\<rparr> \<in> set (faces (set_face_person ?t fid (Some (pe_id p))))"
        and i: "fa_id fc = fid" by auto
      show ?thesis by (rule bexI[OF _ m]) (use assms(3) 2 i in simp)
    qed
  qed
qed

lemma assign_names_no_orphans:
  "distinct (map fa_id fs) \<Longrightarrow> \<forall>f \<in> set fs. face_get s (fa_id f) \<noteq> None \<Longrightarrow>
   anchored s (fa_id ` set fs) \<Longrightarrow> no_orphans (assign_names now uid fs names s)"
proof (induction now uid fs names s rule: assign_names.induct)
  case (1 now uid names s)
  then show ?case by (simp add: anchored_empty)
next
  case (2 now uid fc rest s)
  then show ?case by (simp add: anchored_no_orphans)
next
  case (3 now uid fc rest entry names s)
  let ?raw = "case entry of None \<Rightarrow> [] | Some n \<Rightarrow> n"
  let ?s1 = "fst (assign_face_to_person s now (fa_id fc) (strip ?raw) uid)"
  have ex: "face_get s (fa_id fc) \<noteq> None" using "3.prems"(2) by simp
  have d: "distinct (map fa_id rest)" and fresh: "fa_id fc \<notin> fa_id ` set rest"
    using "3.prems"(1) by auto
  have keep: "\<forall>f \<in> set rest. face_get s' (fa_id f) \<noteq> None"
    if "map fa_id (faces s') = map fa_id (faces s)" for s'
    using "3.prems"(2) that unfolding face_exists_iff by simp
  have an: "anchored s (insert (fa_id fc) (fa_id ` set rest))" using "3.prems"(3) by simp
  show ?case
  proof (cases "strip ?raw \<noteq> []")
    case True
    have "anchored ?s1 (fa_id ` set rest)" by (rule assign_anchored[OF an ex fresh])
    from "3.IH"(1)[OF refl True d keep[OF assign_keeps_faces] this] True
    show ?thesis by (simp add: Let_def)
  next
    case False
    have "anchored s (fa_id ` set rest)" by (rule anchored_mono[OF an]) auto
    from "3.IH"(2)[OF refl False d keep[OF refl] this] False
    show ?thesis by (simp add: Let_def)
  qed
qed

lemma upload_photo_no_orphans:
  assumes "no_orphans s" and "distinct (map fa_id (faces s))"
  shows "no_orphans (fst (upload_photo s now uid fi file_hash dets extr face_names))"
proof -
  obtain s1 photo where c: "create_photo s now uid fi file_hash = (s1, photo)"
    by (cases "create_photo s now uid fi file_hash") auto
  then have s1: "faces s1 = faces s" "persons s1 = persons s"
    by (auto simp: create_photo_def Let_def)
  show ?thesis
  proof (cases "dets = []")
    case True
    with c have "fst (upload_photo s now uid fi file_hash dets extr face_names) = s1"
      by (simp add: upload_photo_def)
    with assms(1) s1 show ?thesis by (simp add: no_orphans_def)
  next
    case False
    obtain s2 saved where sv: "save_detected_faces s1 (ph_id photo) dets = (s2, saved)"
      by (cases "save_detected_faces s1 (ph_id photo) dets") auto
    obtain s3 res where pr: "process_embeddings_for_photo s2 (ph_id photo) extr uid ''facenet'' = (s3, res)"
      by (cases "process_embeddings_for_photo s2 (ph_id photo) extr uid ''facenet''") auto
    from save_faces_loop_effect[OF sv[unfolded save_detected_faces_def]]
    have f2: "faces s2 = faces s1 @ saved" and p2: "persons s2 = persons s1"
      and d: "distinct (map fa_id saved)"
      and fr: "\<forall>f \<in> set saved. fa_id f \<notin> fa_id ` set (faces s1)"
      by auto
    have dj: "set (map fa_id (faces s)) \<inter> set (map fa_id saved) = {}"
    proof -
      have "i \<notin> set (map fa_id (faces s))" if "i \<in> set (map fa_id saved)" for i
      proof -
        from that obtain f where "f \<in> set saved" "i = fa_id f" by (auto simp: image_iff)
        with fr show ?thesis by (simp add: s1)
      qed
      then show ?thesis by blast
    qed
    have d2: "distinct (map fa_id (faces s2))"
      unfolding f2 s1 map_append distinct_append using assms(2) d dj by (intro conjI)
    have a2: "anchored s2 (fa_id ` set saved)"
      unfolding anchored_def
    proof
      fix p assume "p \<in> set (persons s2)"
      with assms(1) p2 s1 obtain f where f: "f \<in> set (faces s)" "fa_person_id f = Some (pe_id p)"
        by (auto simp: no_orphans_def)
      have "fa_id f \<in> set (map fa_id (faces s))" using f(1) by simp
      with dj have "fa_id f \<notin> set (map fa_id saved)" by blast
      then have "fa_id f \<notin> fa_id ` set saved" by simp
      with f show "\<exists>f \<in> set (faces s2). fa_id f \<notin> fa_id ` set saved \<and> fa_person_id f = Some (pe_id p)"
        unfolding f2 s1 by auto
    qed
    have a3: "anchored s3 (fa_id ` set saved)"
      by (rule embeddings_loop_anchored[OF pr[unfolded process_embeddings_for_photo_def] d2 a2])
    from embeddings_loop_frame[OF pr[unfolded process_embeddings_for_photo_def]]
    have ids3: "map fa_id (faces s3) = map fa_id (faces s2)" by simp
    have ex3: "\<forall>f \<in> set saved. face_get s3 (fa_id f) \<noteq> None"
      unfolding face_exists_iff ids3 f2 by auto
    show ?thesis
    proof (cases res)
      case (Inl e)
      with c sv pr False have "fst (upload_photo s now uid fi file_hash dets extr face_names) = s3"
        by (simp add: upload_photo_def)
      with a3 show ?thesis by (simp add: anchored_no_orphans)
    next
      case (Inr n)
      with c sv pr False
      have "fst (upload_photo s now uid fi file_hash dets extr face_names) =
          (if face_names \<noteq> [] then assign_names now uid saved face_names s3 else s3)"
        by (simp add: upload_photo_def Let_def)
      then show ?thesis
        using assign_names_no_orphans[OF d ex3 a3] anchored_no_orphans[OF a3] by simp
    qed
  qed
qed

text \<open>
  Claim C1, as amended. In a store where every person has a referencing face, person keys
  are nonzero and face keys are unique, every person still has a referencing face after a
  photo upload with its face processing (also when matching fails half-way), after the
  deletion of a photo or of a batch of photos, and after the deletion of a person.
\<close>

theorem no_orphans_preserved:
  "no_orphans s \<and> (\<forall>p \<in> set (persons s). pe_id p \<noteq> 0) \<and> distinct (map fa_id (faces s)) \<longrightarrow>
     no_orphans (fst (upload_photo s now user_id fi file_hash detected extr face_names)) \<and>
     no_orphans (fst (delete_photo s photo_id user_id)) \<and>
     no_orphans (fst (delete_photos_batch s photo_ids user_id)) \<and>
     no_orphans (fst (delete_person s person_id user_id))"
proof (intro impI conjI)
  assume a: "no_orphans s \<and> (\<forall>p \<in> set (persons s). pe_id p \<noteq> 0) \<and> distinct (map fa_id (faces s))"
  then have n: "no_orphans s" and z: "\<forall>p \<in> set (persons s). pe_id p \<noteq> 0"
    and d: "distinct (map fa_id (faces s))"
    by simp_all
  show "no_orphans (fst (upload_photo s now user_id fi file_hash detected extr face_names))"
    using n d by (rule upload_photo_no_orphans)
  show "no_orphans (fst (delete_photo s photo_id user_id))"
    using n z by (rule delete_photo_no_orphans)
  show "no_orphans (fst (delete_photos_batch s photo_ids user_id))"
    using n z by (rule delete_photos_batch_no_orphans)
  show "no_orphans (fst (delete_person s person_id user_id))"
    using n by (rule delete_person_no_orphans)
qed

lemma ex_album_well_formed:
  "no_orphans ex_album \<and> (\<forall>p \<in> set (persons ex_album). pe_id p \<noteq> 0) \<and>
   distinct (map fa_id (faces ex_album))"
  by (simp add: no_orphans_def ex_album_def ex_defs)

theorem no_orphans_preserved_witness:
  "no_orphans ex_album \<and>
   no_orphans (fst (upload_photo ex_album 99 1 ex_file ''hh'' [ex_box] ex_extract [Some ''Zoe''])) \<and>
   no_orphans (fst (delete_photo ex_album 2 1)) \<and>
   persons (fst (delete_photo ex_album 2 1)) = [mk_person 1 1 ''Ann''] \<and>
   no_orphans (fst (delete_photos_batch ex_album [1, 2, 3] 1)) \<and>
   no_orphans (fst (delete_person ex_album 1 1))"
proof -
  note inst = no_orphans_preserved[THEN mp, OF ex_album_well_formed,
      of 99 1 ex_file "''hh''" "[ex_box]" ex_extract "[Some ''Zoe'']" 2 "[1, 2, 3]" 1]
  have "persons (fst (delete_photo ex_album 2 1)) = [mk_person 1 1 ''Ann'']"
    unfolding ex_album_delete_photo by simp
  with inst ex_album_well_formed show ?thesis by blast
qed

text \<open>
  On a store where every person has a face, creating a person leaves the new person
  without one, and assigning Bob's only face to Ann leaves Bob without one.
\<close>

theorem no_orphans_counterexample:
  "no_orphans ex_album \<and>
   \<not> no_orphans (fst (create_person ex_album 5 1 ''Cy'')) \<and>
   person_faces (fst (create_person ex_album 5 1 ''Cy'')) 3 = [] \<and>
   person_get (fst (create_person ex_album 5 1 ''Cy'')) 3 \<noteq> None \<and>
   \<not> no_orphans (fst (assign_face_to_person ex_album 5 3 ''Ann'' 1)) \<and>
   person_faces (fst (assign_face_to_person ex_album 5 3 ''Ann'' 1)) 2 = [] \<and>
   person_get (fst (assign_face_to_person ex_album 5 3 ''Ann'' 1)) 2 = Some (mk_person 2 1 ''Bob'')"
  by (simp add: no_orphans_def ex_album_def ex_defs registry_defs person_get_def Let_def)

end
